theory Spec2Isabelle
  imports Main "HOL-Library.Multiset"
begin

section \<open>The stop state: request, poll, callbacks\<close>

text \<open>
  The seven examples are built on \<^verbatim>\<open>std::stop_source\<close>, \<^verbatim>\<open>std::stop_token\<close> and
  \<^verbatim>\<open>std::stop_callback\<close>. The repository calls them and holds no code of theirs; the spec
  describes them as its components StopState, StopSource, StopToken and StopCallback.
  Section 5 of the spec says that \<^verbatim>\<open>request_stop()\<close> is linearizable, so each operation
  below is one atomic transition of the state, and calls made by several threads are a
  sequence of such transitions in some order.
\<close>

text \<open>
  Modelled from the spec: the StopState of section 3,
  \<^verbatim>\<open>{ requested: bool, callbacks: ordered collection of (id, action) }\<close>; the shared state
  behind \<^verbatim>\<open>std::stop_source\<close> is library code, not under src/. \<open>issued\<close> counts the
  registrations made so far and is the id the next one gets.
\<close>

record 'a stop_state =
  requested :: bool
  callbacks :: "(nat \<times> 'a) list"
  issued :: nat

text \<open>
  Modelled from the spec: the state a new StopSource owns, not requested and with nothing
  registered (section 3); the constructor of \<^verbatim>\<open>std::stop_source\<close> is not under src/.
\<close>

definition new_stop_state :: "'a stop_state" where
  "new_stop_state = \<lparr>requested = False, callbacks = [], issued = 0\<rparr>"

text \<open>
  Modelled from the spec: \<^verbatim>\<open>StopSource.request_stop() -> bool\<close> of section 4.1
  (\<^verbatim>\<open>std::stop_source::request_stop\<close>, not under src/): true if this call performed the
  transition from not-requested to requested, false if already requested; the stored
  actions run inside the call that performs the transition, before it returns. The second
  component lists the actions the call invokes.
\<close>

definition request_stop :: "'a stop_state \<Rightarrow> bool \<times> (nat \<times> 'a) list \<times> 'a stop_state" where
  "request_stop s =
     (if requested s then (False, [], s)
      else (True, callbacks s, s\<lparr>requested := True, callbacks := []\<rparr>))"

text \<open>
  Modelled from the spec: \<^verbatim>\<open>StopToken.stop_requested() -> bool\<close> of section 4.1, a poll of
  the flag (\<^verbatim>\<open>std::stop_token::stop_requested\<close>, not under src/).
\<close>

definition stop_requested :: "'a stop_state \<Rightarrow> bool" where
  "stop_requested s = requested s"

text \<open>
  Modelled from the spec: \<^verbatim>\<open>register_callback(token, action) -> CallbackHandle\<close> of section
  4.1 (the constructor of \<^verbatim>\<open>std::stop_callback\<close>, not under src/): if stop is already
  requested the action is invoked by the call itself, before it returns, and nothing is
  stored; otherwise the action is stored. The first component is the handle (the id of the
  registration), the second the actions the call invokes.
\<close>

definition register_callback ::
    "'a stop_state \<Rightarrow> 'a \<Rightarrow> nat \<times> (nat \<times> 'a) list \<times> 'a stop_state" where
  "register_callback s a =
     (if requested s then (issued s, [(issued s, a)], s\<lparr>issued := Suc (issued s)\<rparr>)
      else (issued s, [],
            s\<lparr>callbacks := callbacks s @ [(issued s, a)], issued := Suc (issued s)\<rparr>))"

text \<open>
  Modelled from the spec: destroying a CallbackHandle deregisters its action (section 4.1;
  the destructor of \<^verbatim>\<open>std::stop_callback\<close>, not under src/).
\<close>

definition destroy_callback :: "'a stop_state \<Rightarrow> nat \<Rightarrow> 'a stop_state" where
  "destroy_callback s i = s\<lparr>callbacks := filter (\<lambda>c. fst c \<noteq> i) (callbacks s)\<rparr>"

subsection \<open>Executions: calls by threads, in the order they take effect\<close>

text \<open>
  A call names the thread that makes it. An observation is either the return value of a
  \<^verbatim>\<open>request_stop\<close> call or the invocation of a registered action, with the thread it ran on.
  The actions a call invokes are observed before the call's own return.
\<close>

datatype 'a call = RequestStop nat | Register nat 'a | Destroy nat nat

datatype 'a obs = Returned nat bool | Ran nat nat 'a

fun perform :: "'a call \<Rightarrow> 'a stop_state \<Rightarrow> 'a obs list \<times> 'a stop_state" where
  "perform (RequestStop t) s =
     (case request_stop s of
        (b, fired, s') \<Rightarrow> (map (\<lambda>c. Ran t (fst c) (snd c)) fired @ [Returned t b], s'))"
| "perform (Register t a) s =
     (case register_callback s a of
        (h, fired, s') \<Rightarrow> (map (\<lambda>c. Ran t (fst c) (snd c)) fired, s'))"
| "perform (Destroy t i) s = ([], destroy_callback s i)"

fun run_calls :: "'a call list \<Rightarrow> 'a stop_state \<Rightarrow> 'a obs list \<times> 'a stop_state" where
  "run_calls [] s = ([], s)"
| "run_calls (c # cs) s =
     (case perform c s of
        (os, s') \<Rightarrow> (case run_calls cs s' of (os', s'') \<Rightarrow> (os @ os', s'')))"

text \<open>The return values of the \<^verbatim>\<open>request_stop\<close> calls, in order.\<close>

fun results :: "'a obs list \<Rightarrow> bool list" where
  "results [] = []"
| "results (Returned t b # os) = b # results os"
| "results (Ran t i a # os) = results os"

text \<open>How often the action of registration \<open>i\<close> was invoked.\<close>

fun runs :: "nat \<Rightarrow> 'a obs list \<Rightarrow> nat" where
  "runs i [] = 0"
| "runs i (Returned t b # os) = runs i os"
| "runs i (Ran t j a # os) = (if j = i then Suc (runs i os) else runs i os)"

fun is_request :: "'a call \<Rightarrow> bool" where
  "is_request (RequestStop t) = True"
| "is_request (Register t a) = False"
| "is_request (Destroy t i) = False"

fun destroys :: "nat \<Rightarrow> 'a call \<Rightarrow> bool" where
  "destroys i (Destroy t j) = (j = i)"
| "destroys i (RequestStop t) = False"
| "destroys i (Register t a) = False"

definition pending :: "nat \<Rightarrow> 'a stop_state \<Rightarrow> bool" where
  "pending i s = (i \<in> fst ` set (callbacks s))"

text \<open>
  What every state built by the operations satisfies: stored ids were issued, no id is stored
  twice, and nothing stays stored once stop is requested.
\<close>

definition wf_state :: "'a stop_state \<Rightarrow> bool" where
  "wf_state s =
     ((\<forall>c \<in> set (callbacks s). fst c < issued s) \<and> distinct (map fst (callbacks s)) \<and>
      (requested s \<longrightarrow> callbacks s = []))"


section \<open>Threads: \<^verbatim>\<open>std::jthread\<close> and the token-aware wait\<close>

text \<open>
  Modelled from the spec: the thread handle and the stop source of a CancellableWorker
  (sections 3, 4.1 and 4.2) and the token-aware wait (section 4.3). The worker classes hold
  a \<^verbatim>\<open>std::jthread\<close> and wait on a \<^verbatim>\<open>std::condition_variable_any\<close>; both are library code,
  not under src/. The spec gives an unstarted worker for which \<^verbatim>\<open>stop_possible()\<close> is
  false, a start that spawns the thread with a stop state of its own, and a join that
  waits for the thread to terminate. Where the spec is silent, the model follows the C++20
  standard, [thread.jthread.cons] and [thread.jthread.mem]:

  \<^item> a default-constructed \<^verbatim>\<open>jthread\<close> represents no thread and has no stop state;
  \<^item> \<^verbatim>\<open>jthread(f, args...)\<close> makes a new stop state and starts a thread running \<open>f\<close>;
  \<^item> \<^verbatim>\<open>join()\<close> blocks until that thread has completed, and throws \<^verbatim>\<open>std::system_error\<close>
    when the object is not joinable;
  \<^item> the destructor and the move assignment, when the object is joinable, call
    \<^verbatim>\<open>request_stop()\<close> and then \<^verbatim>\<open>join()\<close> (the examples rely on it: "there's no need to
    join any of the threads").

  A thread of execution is \<open>Running\<close> until its body has returned. What a running body does
  from here on is a function \<open>body\<close> of the value its token reports and of the state it
  shares with other threads: \<open>body st g = Some g'\<close> when it returns leaving \<open>g'\<close>, \<open>None\<close> when
  it never returns. \<^verbatim>\<open>join()\<close> on a running thread lets that body run to its end, so it
  returns exactly when the body does.

  An outcome is a normal return with the new state and the events the call caused, an
  exception, or no return at all. Events record what is otherwise invisible in the state:
  a thread was started, a stop request performed the transition, a registered action was
  invoked, a thread was joined, a condition variable was notified. Logging and sleeping are
  not modelled, and starting a thread always succeeds.
\<close>

datatype error = SystemError

datatype tstatus = Running | Finished

datatype 'a event = Spawn | Stop | Fire nat 'a | Join | Notify

datatype ('s, 'a) outcome = Returns 's "'a event list" | Throws error | Blocks

record 'a jthread =
  ssource :: "'a stop_state option"
  thr :: "tstatus option"

definition jthread_default :: "'a jthread" where
  "jthread_default = \<lparr>ssource = None, thr = None\<rparr>"

definition jthread_new :: "'a jthread" where
  "jthread_new = \<lparr>ssource = Some new_stop_state, thr = Some Running\<rparr>"

definition joinable :: "'a jthread \<Rightarrow> bool" where
  "joinable jt = (thr jt \<noteq> None)"

text \<open>
  A token is a view of the stop state of its source, or of none: \<^verbatim>\<open>stop_possible()\<close> is
  false only for a token derived from no state (section 4.1).
\<close>

definition get_stop_token :: "'a jthread \<Rightarrow> 'a stop_state option" where
  "get_stop_token jt = ssource jt"

definition stop_possible :: "'a stop_state option \<Rightarrow> bool" where
  "stop_possible tok = (tok \<noteq> None)"

definition token_stop_requested :: "'a stop_state option \<Rightarrow> bool" where
  "token_stop_requested tok = (case tok of None \<Rightarrow> False | Some s \<Rightarrow> stop_requested s)"

text \<open>
  \<^verbatim>\<open>jthread::request_stop()\<close> and \<^verbatim>\<open>get_stop_source().request_stop()\<close>: the request on the
  stop state of the thread, if it has one. The events are the transition, if this call
  performed it, and the actions it invoked.
\<close>

definition jthread_request_stop :: "'a jthread \<Rightarrow> bool \<times> 'a event list \<times> 'a jthread" where
  "jthread_request_stop jt =
     (case ssource jt of
        None \<Rightarrow> (False, [], jt)
      | Some s \<Rightarrow>
          (case request_stop s of
             (b, fired, s') \<Rightarrow>
               (b, (if b then [Stop] else []) @ map (\<lambda>c. Fire (fst c) (snd c)) fired,
                jt\<lparr>ssource := Some s'\<rparr>)))"

text \<open>
  Constructing a \<^verbatim>\<open>std::stop_callback\<close> on a token: the registration above when the token
  has a stop state, and no effect on a token that has none. The handle is the id of the
  registration, if one was made.
\<close>

definition stop_callback_new ::
    "'a stop_state option \<Rightarrow> 'a \<Rightarrow> 'a stop_state option \<times> nat option \<times> 'a event list" where
  "stop_callback_new tok cb =
     (case tok of
        None \<Rightarrow> (None, None, [])
      | Some s \<Rightarrow>
          (case register_callback s cb of
             (h, fired, s') \<Rightarrow> (Some s', Some h, map (\<lambda>c. Fire (fst c) (snd c)) fired)))"

text \<open>
  \<^verbatim>\<open>jthread::join()\<close>. On a thread that has finished it returns at once; on a running
  thread it returns when the body does, with what the body left; on an object that holds
  no thread it throws.
\<close>

definition jthread_join ::
    "(bool \<Rightarrow> 'g \<Rightarrow> 'g option) \<Rightarrow> 'a jthread \<Rightarrow> 'g \<Rightarrow> ('a jthread \<times> 'g, 'a) outcome" where
  "jthread_join body jt g =
     (case thr jt of
        None \<Rightarrow> Throws SystemError
      | Some Finished \<Rightarrow> Returns (jt\<lparr>thr := None\<rparr>, g) [Join]
      | Some Running \<Rightarrow>
          (case body (token_stop_requested (get_stop_token jt)) g of
             None \<Rightarrow> Blocks
           | Some g' \<Rightarrow> Returns (jt\<lparr>thr := None\<rparr>, g') [Join]))"

text \<open>
  What \<^verbatim>\<open>~jthread()\<close> and \<^verbatim>\<open>operator=(jthread&&)\<close> do first with the thread they hold:
  if joinable, \<^verbatim>\<open>request_stop()\<close> and then \<^verbatim>\<open>join()\<close>.
\<close>

definition jthread_release ::
    "(bool \<Rightarrow> 'g \<Rightarrow> 'g option) \<Rightarrow> 'a jthread \<Rightarrow> 'g \<Rightarrow> ('a jthread \<times> 'g, 'a) outcome" where
  "jthread_release body jt g =
     (if joinable jt then
        (case jthread_request_stop jt of
           (b, evs, jt') \<Rightarrow>
             (case jthread_join body jt' g of
                Returns r evs' \<Rightarrow> Returns r (evs @ evs')
              | Throws e \<Rightarrow> Throws e
              | Blocks \<Rightarrow> Blocks))
      else Returns (jt, g) [])"

text \<open>\<^verbatim>\<open>operator=(jthread&&)\<close>: after the release, the object takes the state of \<open>new\<close>.\<close>

definition jthread_assign ::
    "(bool \<Rightarrow> 'g \<Rightarrow> 'g option) \<Rightarrow> 'a jthread \<Rightarrow> 'a jthread \<Rightarrow> 'g \<Rightarrow>
     ('a jthread \<times> 'g, 'a) outcome" where
  "jthread_assign body old new g =
     (case jthread_release body old g of
        Returns r evs \<Rightarrow> Returns (new, snd r) evs
      | Throws e \<Rightarrow> Throws e
      | Blocks \<Rightarrow> Blocks)"

text \<open>
  Modelled from the spec: the token-aware wait of section 4.3, which blocks until the
  predicate holds or stop has been requested and tells the two apart
  (\<^verbatim>\<open>std::condition_variable_any::wait(lock, token, pred)\<close>, not under src/). The comment
  at its call in class-more says the same: it "returns the result from the predicate, and
  so, if the result is false, we know that stop was requested". While stop is not requested
  it returns true as soon as the predicate holds and blocks otherwise; once stop is
  requested it returns the predicate's value. \<open>None\<close>: the caller stays blocked.
\<close>

definition cv_wait :: "bool \<Rightarrow> bool \<Rightarrow> bool option" where
  "cv_wait stop pred = (if stop then Some pred else if pred then Some True else None)"

section \<open>The worker classes\<close>

text \<open>
  \<^verbatim>\<open>SimpleWorkerThrad\<close> (class-basic), \<^verbatim>\<open>WorkerThread<T>\<close> (class-adv) and \<^verbatim>\<open>WorkerThread\<close>
  (class-more) each hold \<^verbatim>\<open>std::jthread mThread\<close> and repeat the same text for \<^verbatim>\<open>stop\<close>,
  \<^verbatim>\<open>join\<close>, \<^verbatim>\<open>addCallback\<close> and the destructor; \<^verbatim>\<open>start\<close> differs only in the member
  function the new thread runs. These members are written once, over any record that has the
  field \<open>mThread\<close>, with the body of the class as a parameter. Names and colours only feed
  the log and are left out.
\<close>

record 'a worker_base =
  mThread :: "'a jthread"

text \<open>
  \<^verbatim>\<open>start\<close> (class-basic lines 79-89, class-adv 87-97, class-more 91-103):
  \<^verbatim>\<open>mThread = std::jthread(...)\<close>. The new thread is constructed first, then move-assigned
  over the old value of \<open>mThread\<close>. There is no test of whether the worker was started
  before.
\<close>

definition WorkerThread_start ::
    "(bool \<Rightarrow> 'g \<Rightarrow> 'g option) \<Rightarrow> ('a, 'z) worker_base_scheme \<Rightarrow> 'g \<Rightarrow>
     (('a, 'z) worker_base_scheme \<times> 'g, 'a) outcome" where
  "WorkerThread_start body w g =
     (case jthread_assign body (mThread w) jthread_new g of
        Returns r evs \<Rightarrow> Returns (w\<lparr>mThread := fst r\<rparr>, snd r) (Spawn # evs)
      | Throws e \<Rightarrow> Throws e
      | Blocks \<Rightarrow> Blocks)"

text \<open>
  \<^verbatim>\<open>stop(bool block = false)\<close> (class-basic lines 93-103, class-adv 101-111, class-more
  107-117): class-basic and class-more call \<^verbatim>\<open>mThread.request_stop()\<close>, class-adv calls
  \<^verbatim>\<open>mThread.get_stop_source().request_stop()\<close>, which is the same request on the same stop
  state. The join is guarded by \<^verbatim>\<open>stop_possible()\<close>, not by \<^verbatim>\<open>joinable()\<close>.
\<close>

definition WorkerThread_stop ::
    "(bool \<Rightarrow> 'g \<Rightarrow> 'g option) \<Rightarrow> bool \<Rightarrow> ('a, 'z) worker_base_scheme \<Rightarrow> 'g \<Rightarrow>
     (('a, 'z) worker_base_scheme \<times> 'g, 'a) outcome" where
  "WorkerThread_stop body block w g =
     (if stop_possible (get_stop_token (mThread w)) then
        (case jthread_request_stop (mThread w) of
           (b, evs, jt) \<Rightarrow>
             if block then
               (case jthread_join body jt g of
                  Returns r evs' \<Rightarrow> Returns (w\<lparr>mThread := fst r\<rparr>, snd r) (evs @ evs')
                | Throws e \<Rightarrow> Throws e
                | Blocks \<Rightarrow> Blocks)
             else Returns (w\<lparr>mThread := jt\<rparr>, g) evs)
      else Returns (w, g) [])"

text \<open>\<^verbatim>\<open>join()\<close>: \<^verbatim>\<open>if (mThread.joinable()) mThread.join();\<close>\<close>

definition WorkerThread_join ::
    "(bool \<Rightarrow> 'g \<Rightarrow> 'g option) \<Rightarrow> ('a, 'z) worker_base_scheme \<Rightarrow> 'g \<Rightarrow>
     (('a, 'z) worker_base_scheme \<times> 'g, 'a) outcome" where
  "WorkerThread_join body w g =
     (if joinable (mThread w) then
        (case jthread_join body (mThread w) g of
           Returns r evs \<Rightarrow> Returns (w\<lparr>mThread := fst r\<rparr>, snd r) evs
         | Throws e \<Rightarrow> Throws e
         | Blocks \<Rightarrow> Blocks)
      else Returns (w, g) [])"

text \<open>
  \<^verbatim>\<open>addCallback(cb)\<close>: \<^verbatim>\<open>new std::stop_callback<Callback>(mThread.get_stop_token(), cb)\<close>.
  The result is the worker, the handle and the events of the call.
\<close>

definition WorkerThread_addCallback ::
    "'a \<Rightarrow> ('a, 'z) worker_base_scheme \<Rightarrow>
     ('a, 'z) worker_base_scheme \<times> nat option \<times> 'a event list" where
  "WorkerThread_addCallback cb w =
     (case stop_callback_new (get_stop_token (mThread w)) cb of
        (tok, h, evs) \<Rightarrow> (w\<lparr>mThread := (mThread w)\<lparr>ssource := tok\<rparr>\<rparr>, h, evs))"


subsection \<open>class-basic: \<^verbatim>\<open>SimpleWorkerThrad\<close>\<close>

text \<open>
  The worker functions of class-basic take no token: \<^verbatim>\<open>interruptableWorker\<close> makes its own
  with \<^verbatim>\<open>const std::stop_token &token = mThread.get_stop_token();\<close> (line 135), executed by
  the new thread, while \<^verbatim>\<open>start\<close> (line 83), on the starting thread, is still assigning the
  new thread object to \<open>mThread\<close>. Nothing orders the two. The token the body holds for the
  rest of its run is therefore \<open>Own\<close>, a token on the stop state of its own thread, when
  the read comes after the assignment, and \<open>Old tok\<close>, the token \<open>tok\<close> of the thread object
  that \<open>mThread\<close> held before, when the read comes first: a token with no stop state on a
  first start, a token on the stop state of the previous thread on a later one. The worker
  record holds that token next to the members of the class.
\<close>

datatype 'a held = Own | Old "'a stop_state option"

record 'a SimpleWorkerThrad = "'a worker_base" +
  mInterruptable :: bool
  token :: "'a held"

definition SimpleWorkerThrad_new :: "bool \<Rightarrow> 'a SimpleWorkerThrad" where
  "SimpleWorkerThrad_new interruptable =
     \<lparr>mThread = jthread_default, mInterruptable = interruptable, token = Own\<rparr>"

text \<open>
  \<^verbatim>\<open>token.stop_requested()\<close> in the body: \<open>st\<close> is what a token on the thread's own stop
  state reports.
\<close>

definition SimpleWorkerThrad_token :: "'a SimpleWorkerThrad \<Rightarrow> bool \<Rightarrow> bool" where
  "SimpleWorkerThrad_token w st =
     (case token w of Own \<Rightarrow> st | Old tok \<Rightarrow> token_stop_requested tok)"

text \<open>
  \<^verbatim>\<open>interruptableWorker\<close>: \<^verbatim>\<open>while (!token.stop_requested()) { ... sleep ... }\<close>, then a pause,
  then it returns. \<open>st\<close> is what the token of the body reports while the body runs.
\<close>

partial_function (option) interruptableWorker :: "bool \<Rightarrow> unit option" where
  "interruptableWorker st = (if \<not> st then interruptableWorker st else Some ())"

text \<open>\<^verbatim>\<open>uninterruptableWorker\<close>: \<^verbatim>\<open>for (int i = 0; i < 20; ++i) { ... sleep ... }\<close>.\<close>

function uninterruptableWorker :: "nat \<Rightarrow> unit option" where
  "uninterruptableWorker i = (if i < 20 then uninterruptableWorker (i + 1) else Some ())"
  by pat_completeness auto
termination
  by (relation "measure (\<lambda>i. 20 - i)") auto

declare uninterruptableWorker.simps [simp del]

text \<open>
  \<^verbatim>\<open>start\<close> picks the member function by \<open>mInterruptable\<close>, which is constant, so the
  thread a worker holds runs the body that \<open>mInterruptable\<close> names.
\<close>

definition SimpleWorkerThrad_body :: "'a SimpleWorkerThrad \<Rightarrow> bool \<Rightarrow> unit \<Rightarrow> unit option" where
  "SimpleWorkerThrad_body w st g =
     (if mInterruptable w then interruptableWorker (SimpleWorkerThrad_token w st)
      else uninterruptableWorker 0)"

text \<open>
  The token of the thread object that \<^verbatim>\<open>start\<close> overwrites, as it is once the assignment is
  over: the move assignment has requested stop on it if the object was joinable.
\<close>

definition overwritten_token :: "'a jthread \<Rightarrow> 'a stop_state option" where
  "overwritten_token jt =
     (if joinable jt then get_stop_token (snd (snd (jthread_request_stop jt)))
      else get_stop_token jt)"

text \<open>
  \<^verbatim>\<open>start\<close> (lines 79-89). \<open>early\<close> says that the new thread reads \<open>mThread\<close> at line 135
  before \<^verbatim>\<open>start\<close> has assigned it. The thread joined inside the assignment runs the body
  of the worker as it was, with the token it holds.
\<close>

definition SimpleWorkerThrad_start ::
    "bool \<Rightarrow> 'a SimpleWorkerThrad \<Rightarrow> ('a SimpleWorkerThrad \<times> unit, 'a) outcome" where
  "SimpleWorkerThrad_start early w =
     (case WorkerThread_start (SimpleWorkerThrad_body w) w () of
        Returns r evs \<Rightarrow>
          Returns ((fst r)\<lparr>token := (if early then Old (overwritten_token (mThread w)) else Own)\<rparr>,
                   snd r) evs
      | Throws e \<Rightarrow> Throws e
      | Blocks \<Rightarrow> Blocks)"

definition SimpleWorkerThrad_stop ::
    "bool \<Rightarrow> 'a SimpleWorkerThrad \<Rightarrow> ('a SimpleWorkerThrad \<times> unit, 'a) outcome" where
  "SimpleWorkerThrad_stop block w = WorkerThread_stop (SimpleWorkerThrad_body w) block w ()"

definition SimpleWorkerThrad_join ::
    "'a SimpleWorkerThrad \<Rightarrow> ('a SimpleWorkerThrad \<times> unit, 'a) outcome" where
  "SimpleWorkerThrad_join w = WorkerThread_join (SimpleWorkerThrad_body w) w ()"


subsection \<open>class-adv: \<^verbatim>\<open>WorkerThread<T>\<close>\<close>

record ('a, 't) WorkerThreadT = "'a worker_base" +
  mData :: 't

definition WorkerThreadT_new :: "'t \<Rightarrow> ('a, 't) WorkerThreadT" where
  "WorkerThreadT_new defaultValue = \<lparr>mThread = jthread_default, mData = defaultValue\<rparr>"

text \<open>The two overrides of the virtual \<^verbatim>\<open>taskComplete()\<close>.\<close>

definition BoolWorkerThread_taskComplete :: "bool \<Rightarrow> bool" where
  "BoolWorkerThread_taskComplete d = d"

definition IntWorkerThread_taskComplete :: "int \<Rightarrow> int \<Rightarrow> bool" where
  "IntWorkerThread_taskComplete mTarget d = (mTarget = d)"

text \<open>
  \<^verbatim>\<open>worker\<close> (lines 150-168): \<^verbatim>\<open>while (!token.stop_requested() && !done)\<close> around
  \<^verbatim>\<open>mCv.wait(lock, [&]() { return (done = taskComplete()) || token.stop_requested(); })\<close>.
  The plain wait returns when its predicate holds and blocks otherwise, until it is
  notified. \<open>d\<close> is the value of \<open>mData\<close> and \<open>st\<close> what the token reports while the body
  runs.

  The stop callback of line 154 calls \<^verbatim>\<open>mCv.notify_all()\<close> without holding \<open>mMutex\<close>, so a
  stop request can fall between the wait's evaluation of its predicate, which found the
  task not complete and no stop requested, and the moment the wait blocks. \<open>lost\<close> says
  that this happened: the notification found nobody waiting, and no other one follows,
  since \<^verbatim>\<open>setData\<close> notifies only while no stop is requested. The worker then stays
  blocked although stop is requested.
\<close>

function WorkerThreadT_worker ::
    "('t \<Rightarrow> bool) \<Rightarrow> 't \<Rightarrow> bool \<Rightarrow> bool \<Rightarrow> bool \<Rightarrow> unit option" where
  "WorkerThreadT_worker taskComplete d st lost done =
     (if st \<and> lost \<and> \<not> taskComplete d then None
      else if \<not> st \<and> \<not> done then
        (if taskComplete d \<or> st
         then WorkerThreadT_worker taskComplete d st lost (taskComplete d)
         else None)
      else Some ())"
  by pat_completeness auto
termination
  by (relation "measure (\<lambda>(taskComplete, d, st, lost, done). if done then 0 else 1)") auto

declare WorkerThreadT_worker.simps [simp del]

definition WorkerThreadT_body ::
    "('t \<Rightarrow> bool) \<Rightarrow> bool \<Rightarrow> ('a, 't) WorkerThreadT \<Rightarrow> bool \<Rightarrow> unit \<Rightarrow> unit option" where
  "WorkerThreadT_body taskComplete lost w st g =
     WorkerThreadT_worker taskComplete (mData w) st lost False"

text \<open>
  \<^verbatim>\<open>start\<close> (lines 87-97) and \<^verbatim>\<open>stop\<close> (lines 101-111). \<open>lost\<close> is about the thread the
  worker holds when the call is made, whose stop the call requests.
\<close>

definition WorkerThreadT_start ::
    "('t \<Rightarrow> bool) \<Rightarrow> bool \<Rightarrow> ('a, 't) WorkerThreadT \<Rightarrow>
     (('a, 't) WorkerThreadT \<times> unit, 'a) outcome" where
  "WorkerThreadT_start taskComplete lost w =
     WorkerThread_start (WorkerThreadT_body taskComplete lost w) w ()"

definition WorkerThreadT_stop ::
    "('t \<Rightarrow> bool) \<Rightarrow> bool \<Rightarrow> bool \<Rightarrow> ('a, 't) WorkerThreadT \<Rightarrow>
     (('a, 't) WorkerThreadT \<times> unit, 'a) outcome" where
  "WorkerThreadT_stop taskComplete lost block w =
     WorkerThread_stop (WorkerThreadT_body taskComplete lost w) block w ()"

text \<open>
  \<^verbatim>\<open>setData(T data)\<close>: under the test
  \<^verbatim>\<open>mThread.joinable() && !mThread.get_stop_token().stop_requested()\<close> it stores the data
  and calls \<^verbatim>\<open>mCv.notify_all()\<close>, both with \<open>mMutex\<close> held.
\<close>

definition WorkerThreadT_setData ::
    "'t \<Rightarrow> ('a, 't) WorkerThreadT \<Rightarrow> ('a, 't) WorkerThreadT \<times> 'a event list" where
  "WorkerThreadT_setData d w =
     (if joinable (mThread w) \<and> \<not> token_stop_requested (get_stop_token (mThread w))
      then (w\<lparr>mData := d\<rparr>, [Notify])
      else (w, []))"

subsection \<open>adv-stopping: \<^verbatim>\<open>stopThread\<close>\<close>

text \<open>
  \<^verbatim>\<open>if (jt.get_stop_token().stop_possible()) jt.get_stop_source().request_stop();\<close>
\<close>

definition stopThread :: "'a jthread \<Rightarrow> 'a jthread \<times> 'a event list" where
  "stopThread jt =
     (if stop_possible (get_stop_token jt) then
        (case jthread_request_stop jt of (b, evs, jt') \<Rightarrow> (jt', evs))
      else (jt, []))"

subsection \<open>class-more: \<^verbatim>\<open>WorkerThread\<close> and its queue\<close>

record 'a WorkerThread = "'a worker_base" +
  mFinishEarly :: bool

definition WorkerThread_new :: "bool \<Rightarrow> 'a WorkerThread" where
  "WorkerThread_new finishEarly = \<lparr>mThread = jthread_default, mFinishEarly = finishEarly\<rparr>"

text \<open>
  One turn of the loop of \<^verbatim>\<open>worker\<close>, which runs with the mutex held from the wait to the
  pop:
  \<^verbatim>\<open>if (!cv.wait(lock, token, [&]() { return queue.size() > 0; }) ||
      (mFinishEarly && token.stop_requested())) break;
  value = queue.front(); queue.pop();\<close>
  \<open>Wait\<close>: the thread stays blocked in the wait.
\<close>

datatype turn = Break | Dequeue int "int list" | Wait

definition worker_turn :: "bool \<Rightarrow> bool \<Rightarrow> int list \<Rightarrow> turn" where
  "worker_turn finishEarly stop queue =
     (case cv_wait stop (length queue > 0) of
        None \<Rightarrow> Wait
      | Some r \<Rightarrow>
          if \<not> r \<or> (finishEarly \<and> stop) then Break else Dequeue (hd queue) (tl queue))"

text \<open>
  The loop \<^verbatim>\<open>while (true)\<close> of \<^verbatim>\<open>worker\<close> for a single consumer while nothing is pushed.
  \<open>stop_in\<close> says when the stop request arrives: \<open>Some k\<close> after \<open>k\<close> more turns of the loop
  (\<open>Some 0\<close>: it is requested now), \<open>None\<close> never. A thread blocked in the wait on an empty
  queue is woken by the stop request, if one comes, and the wait then returns false.
  The result is the list of items dequeued so far, in order, and the queue left behind.
\<close>

datatype run = Exited "int list" "int list" | Waits "int list" "int list"

fun sooner :: "nat option \<Rightarrow> nat option" where
  "sooner None = None"
| "sooner (Some k) = Some (k - 1)"

function WorkerThread_worker :: "bool \<Rightarrow> nat option \<Rightarrow> int list \<Rightarrow> int list \<Rightarrow> run" where
  "WorkerThread_worker finishEarly stop_in queue acc =
     (case worker_turn finishEarly (stop_in = Some 0) queue of
        Break \<Rightarrow> Exited acc queue
      | Wait \<Rightarrow> (if stop_in = None then Waits acc queue else Exited acc queue)
      | Dequeue v queue' \<Rightarrow> WorkerThread_worker finishEarly (sooner stop_in) queue' (acc @ [v]))"
  by pat_completeness auto
termination
  by (relation "measure (\<lambda>(finishEarly, stop_in, queue, acc). length queue)")
     (auto simp: worker_turn_def cv_wait_def split: if_splits)

declare WorkerThread_worker.simps [simp del]

text \<open>
  The body as \<^verbatim>\<open>join()\<close> sees it. The shared state is the queue together with the list of
  items dequeued so far.
\<close>

definition WorkerThread_body ::
    "bool \<Rightarrow> bool \<Rightarrow> int list \<times> int list \<Rightarrow> (int list \<times> int list) option" where
  "WorkerThread_body finishEarly st g =
     (case WorkerThread_worker finishEarly (if st then Some 0 else None) (fst g) (snd g) of
        Exited acc queue \<Rightarrow> Some (queue, acc)
      | Waits acc queue \<Rightarrow> None)"

subsection \<open>class-more: \<^verbatim>\<open>main\<close>, the pool\<close>

text \<open>
  \<^verbatim>\<open>main\<close> of class-more runs beside the threads it starts. The state holds what they share
  (the queue), the worker objects, where \<^verbatim>\<open>main\<close> stands, and two lists kept for the
  statements only: every item pushed and every item dequeued, in order.

  One step is one move of one thread. A worker's move is one turn of its loop; it holds the
  mutex from the wait to the pop, as \<^verbatim>\<open>main\<close> does for a push, so turns and pushes do not
  overlap. A move of \<^verbatim>\<open>main\<close> is one statement; \<^verbatim>\<open>extraThread.stop(true)\<close> is two moves,
  the request and the join, and the join can be taken only once the extra thread has left
  its loop. The only registered action is the lambda of line 254, which starts the extra
  thread.
\<close>

datatype action = StartExtra

datatype pc = Creating nat | Pushing int | Killing nat | Joining | Done | Crashed

record pool =
  taskQueue :: "int list"
  threads :: "action WorkerThread list"
  extraThread :: "action WorkerThread"
  pc :: pc
  pushed :: "int list"
  dequeued :: "int list"

text \<open>\<^verbatim>\<open>threadCount / 2\<close> on C++ \<^verbatim>\<open>int\<close>: the quotient is truncated towards zero.\<close>

definition SPECIAL_THREAD :: "int \<Rightarrow> int" where
  "SPECIAL_THREAD threadCount = sgn threadCount * (\<bar>threadCount\<bar> div 2)"

definition init :: pool where
  "init = \<lparr>taskQueue = [], threads = [], extraThread = WorkerThread_new False,
           pc = Creating 0, pushed = [], dequeued = []\<rparr>"

text \<open>
  The lambda: \<^verbatim>\<open>extraThread.start(mutex, cv, taskQueue)\<close>. Nothing is ever registered on
  the extra worker, so its own events invoke nothing.
\<close>

definition start_extra :: "pool \<Rightarrow> pool option" where
  "start_extra s =
     (case WorkerThread_start (WorkerThread_body (mFinishEarly (extraThread s)))
             (extraThread s) (taskQueue s, dequeued s) of
        Returns r evs \<Rightarrow>
          Some (s\<lparr>extraThread := fst r, taskQueue := fst (snd r), dequeued := snd (snd r)\<rparr>)
      | Throws e \<Rightarrow> Some (s\<lparr>pc := Crashed\<rparr>)
      | Blocks \<Rightarrow> None)"

text \<open>The registered actions a call of \<^verbatim>\<open>main\<close> invoked are run inside that call.\<close>

fun run_callbacks :: "action event list \<Rightarrow> pool \<Rightarrow> pool option" where
  "run_callbacks [] s = Some s"
| "run_callbacks (Fire i StartExtra # evs) s =
     (case start_extra s of None \<Rightarrow> None | Some s' \<Rightarrow> run_callbacks evs s')"
| "run_callbacks (Spawn # evs) s = run_callbacks evs s"
| "run_callbacks (Stop # evs) s = run_callbacks evs s"
| "run_callbacks (Join # evs) s = run_callbacks evs s"
| "run_callbacks (Notify # evs) s = run_callbacks evs s"

definition goto :: "pc \<Rightarrow> pool \<Rightarrow> pool" where
  "goto l s = (if pc s = Crashed then s else s\<lparr>pc := l\<rparr>)"

text \<open>
  The statements of \<^verbatim>\<open>main\<close> for \<open>threadCount = n\<close>:
  \<^item> \<open>Creating i\<close>: the loop of line 241, which makes worker \<open>i\<close> with \<open>finishEarly = true\<close>,
    starts it and, for \<open>i = SPECIAL_THREAD\<close>, adds the callback;
  \<^item> \<open>Pushing i\<close>: the loop of line 266, which pushes \<open>i\<close> and counts down from
    \<open>threadCount * 10\<close>, and after it \<^verbatim>\<open>delayMultiplier /= threadCount\<close>, a division by zero
    when \<open>threadCount = 0\<close>;
  \<^item> \<open>Killing j\<close>: the loop of line 285, \<^verbatim>\<open>thread->stop()\<close> on each worker, and after it the
    request of \<^verbatim>\<open>extraThread.stop(true)\<close>;
  \<^item> \<open>Joining\<close>: the join of \<^verbatim>\<open>extraThread.stop(true)\<close>;
  \<^item> \<open>Done\<close>: \<^verbatim>\<open>extraThread.stop(true)\<close> has returned.
  \<open>None\<close>: \<^verbatim>\<open>main\<close> cannot move.
\<close>

definition main_step :: "int \<Rightarrow> pool \<Rightarrow> pool option" where
  "main_step n s =
     (case pc s of
        Creating i \<Rightarrow>
          if int i < n then
            (case WorkerThread_start (WorkerThread_body True) (WorkerThread_new True)
                    (taskQueue s, dequeued s) of
               Returns r evs \<Rightarrow>
                 (case (if int i = SPECIAL_THREAD n
                        then WorkerThread_addCallback StartExtra (fst r)
                        else (fst r, None, [])) of
                    (w, h, evs') \<Rightarrow>
                      (case run_callbacks evs'
                              (s\<lparr>taskQueue := fst (snd r), dequeued := snd (snd r),
                                 threads := threads s @ [w]\<rparr>) of
                         None \<Rightarrow> None
                       | Some s' \<Rightarrow> Some (goto (Creating (Suc i)) s')))
             | Throws e \<Rightarrow> Some (s\<lparr>pc := Crashed\<rparr>)
             | Blocks \<Rightarrow> None)
          else Some (s\<lparr>pc := Pushing (n * 10)\<rparr>)
      | Pushing i \<Rightarrow>
          if i > 0 then
            Some (s\<lparr>taskQueue := taskQueue s @ [i], pushed := pushed s @ [i],
                    pc := Pushing (i - 1)\<rparr>)
          else if n = 0 then Some (s\<lparr>pc := Crashed\<rparr>)
          else Some (s\<lparr>pc := Killing 0\<rparr>)
      | Killing j \<Rightarrow>
          if j < length (threads s) then
            (case WorkerThread_stop (WorkerThread_body (mFinishEarly (threads s ! j))) False
                    (threads s ! j) (taskQueue s, dequeued s) of
               Returns r evs \<Rightarrow>
                 (case run_callbacks evs
                         (s\<lparr>taskQueue := fst (snd r), dequeued := snd (snd r),
                            threads := (threads s)[j := fst r]\<rparr>) of
                    None \<Rightarrow> None
                  | Some s' \<Rightarrow> Some (goto (Killing (Suc j)) s'))
             | Throws e \<Rightarrow> Some (s\<lparr>pc := Crashed\<rparr>)
             | Blocks \<Rightarrow> None)
          else
            (case WorkerThread_stop (WorkerThread_body (mFinishEarly (extraThread s))) False
                    (extraThread s) (taskQueue s, dequeued s) of
               Returns r evs \<Rightarrow>
                 (case run_callbacks evs
                         (s\<lparr>taskQueue := fst (snd r), dequeued := snd (snd r),
                            extraThread := fst r\<rparr>) of
                    None \<Rightarrow> None
                  | Some s' \<Rightarrow>
                      Some (goto (if stop_possible (get_stop_token (mThread (extraThread s)))
                                  then Joining else Done) s'))
             | Throws e \<Rightarrow> Some (s\<lparr>pc := Crashed\<rparr>)
             | Blocks \<Rightarrow> None)
      | Joining \<Rightarrow>
          (case jthread_join (\<lambda>st g. None) (mThread (extraThread s)) () of
             Returns r evs \<Rightarrow>
               Some (s\<lparr>extraThread := (extraThread s)\<lparr>mThread := fst r\<rparr>, pc := Done\<rparr>)
           | Throws e \<Rightarrow> Some (s\<lparr>pc := Crashed\<rparr>)
           | Blocks \<Rightarrow> None)
      | Done \<Rightarrow> None
      | Crashed \<Rightarrow> None)"

text \<open>
  A worker thread that is running takes one turn of its loop, with the value its own token
  reports; it cannot move while it is blocked in the wait.
\<close>

definition thread_turn ::
    "action WorkerThread \<Rightarrow> pool \<Rightarrow> (action WorkerThread \<times> pool) option" where
  "thread_turn w s =
     (if thr (mThread w) = Some Running then
        (case worker_turn (mFinishEarly w)
                (token_stop_requested (get_stop_token (mThread w))) (taskQueue s) of
           Break \<Rightarrow> Some (w\<lparr>mThread := (mThread w)\<lparr>thr := Some Finished\<rparr>\<rparr>, s)
         | Dequeue v queue' \<Rightarrow> Some (w, s\<lparr>taskQueue := queue', dequeued := dequeued s @ [v]\<rparr>)
         | Wait \<Rightarrow> None)
      else None)"

definition worker_step :: "nat \<Rightarrow> pool \<Rightarrow> pool option" where
  "worker_step k s =
     (if k < length (threads s) then
        (case thread_turn (threads s ! k) s of
           None \<Rightarrow> None
         | Some (w, s') \<Rightarrow> Some (s'\<lparr>threads := (threads s')[k := w]\<rparr>))
      else None)"

definition extra_step :: "pool \<Rightarrow> pool option" where
  "extra_step s =
     (case thread_turn (extraThread s) s of
        None \<Rightarrow> None
      | Some (w, s') \<Rightarrow> Some (s'\<lparr>extraThread := w\<rparr>))"

text \<open>
  A schedule names the thread that moves at each step. It can be run when each thread named
  can move at its turn.
\<close>

datatype actor = MainThread | Worker nat | Extra

fun step :: "int \<Rightarrow> actor \<Rightarrow> pool \<Rightarrow> pool option" where
  "step n MainThread s = main_step n s"
| "step n (Worker k) s = worker_step k s"
| "step n Extra s = extra_step s"

fun exec :: "int \<Rightarrow> actor list \<Rightarrow> pool \<Rightarrow> pool option" where
  "exec n [] s = Some s"
| "exec n (a # as) s = (case step n a s of None \<Rightarrow> None | Some s' \<Rightarrow> exec n as s')"

section \<open>The states the pool reaches\<close>

text \<open>
  What the proof of the pool's shutdown says about a state that \<^verbatim>\<open>main\<close> and the threads
  can reach when \<open>threadCount = n\<close> is at least 1. \<open>primary n k stopped t\<close> is worker \<open>k\<close>
  of the pool, which carries the callback until it is stopped if it is the designated one;
  \<open>overflow stopped t\<close> is the extra worker once started; \<open>items n i\<close> are the items
  pushed when the push loop stands at \<open>i\<close>; \<open>killed l k\<close> says that \<^verbatim>\<open>main\<close>, standing
  at \<open>l\<close>, has called \<^verbatim>\<open>stop()\<close> on worker \<open>k\<close>. \<open>weight\<close> bounds the number of steps left.
\<close>

definition primary :: "int \<Rightarrow> nat \<Rightarrow> bool \<Rightarrow> tstatus \<Rightarrow> action WorkerThread" where
  "primary n k stopped t =
     \<lparr>mThread =
        \<lparr>ssource = Some \<lparr>requested = stopped,
                          callbacks = (if int k = SPECIAL_THREAD n \<and> \<not> stopped
                                       then [(0, StartExtra)] else []),
                          issued = (if int k = SPECIAL_THREAD n then 1 else 0)\<rparr>,
         thr = Some t\<rparr>,
      mFinishEarly = True\<rparr>"

definition overflow :: "bool \<Rightarrow> tstatus option \<Rightarrow> action WorkerThread" where
  "overflow stopped t =
     \<lparr>mThread = \<lparr>ssource = Some \<lparr>requested = stopped, callbacks = [], issued = 0\<rparr>, thr = t\<rparr>,
      mFinishEarly = False\<rparr>"

definition items :: "int \<Rightarrow> int \<Rightarrow> int list" where
  "items n i = map (\<lambda>k. n * 10 - int k) [0..<nat (n * 10 - i)]"

fun killed :: "pc \<Rightarrow> nat \<Rightarrow> bool" where
  "killed (Killing j) k = (k < j)"
| "killed Joining k = True"
| "killed Done k = True"
| "killed (Creating i) k = False"
| "killed (Pushing i) k = False"
| "killed Crashed k = False"

definition pool_inv :: "int \<Rightarrow> pool \<Rightarrow> bool" where
  "pool_inv n s =
     (mset (dequeued s) + mset (taskQueue s) = mset (pushed s) \<and>
      (\<forall>k < length (threads s).
         \<exists>t. threads s ! k = primary n k (killed (pc s) k) t \<and>
             (\<not> killed (pc s) k \<longrightarrow> t = Running)) \<and>
      (case pc s of
         Creating i \<Rightarrow>
           length (threads s) = i \<and> int i \<le> n \<and> taskQueue s = [] \<and> pushed s = [] \<and>
           extraThread s = WorkerThread_new False
       | Pushing i \<Rightarrow>
           length (threads s) = nat n \<and> 0 \<le> i \<and> i \<le> n * 10 \<and> pushed s = items n i \<and>
           extraThread s = WorkerThread_new False
       | Killing j \<Rightarrow>
           length (threads s) = nat n \<and> j \<le> nat n \<and> pushed s = items n 0 \<and>
           extraThread s =
             (if j \<le> nat (SPECIAL_THREAD n) then WorkerThread_new False
              else overflow False (Some Running))
       | Joining \<Rightarrow>
           length (threads s) = nat n \<and> pushed s = items n 0 \<and>
           (\<exists>t. extraThread s = overflow True (Some t) \<and> (t = Finished \<longrightarrow> taskQueue s = []))
       | Done \<Rightarrow>
           length (threads s) = nat n \<and> pushed s = items n 0 \<and>
           extraThread s = overflow True None \<and> taskQueue s = []
       | Crashed \<Rightarrow> False))"

fun main_left :: "int \<Rightarrow> pc \<Rightarrow> nat" where
  "main_left n (Creating i) = (nat n - i) + nat (n * 10) + nat n + 4"
| "main_left n (Pushing i) = nat i + nat n + 3"
| "main_left n (Killing j) = (nat n - j) + 2"
| "main_left n Joining = 1"
| "main_left n Done = 0"
| "main_left n Crashed = 0"

definition running :: "'a WorkerThread \<Rightarrow> nat" where
  "running w = (if thr (mThread w) = Some Running then 1 else 0)"

definition weight :: "int \<Rightarrow> pool \<Rightarrow> nat" where
  "weight n s =
     3 * main_left n (pc s) + length (taskQueue s) + sum_list (map running (threads s)) +
     running (extraThread s)"

section \<open>The loop of the queue worker\<close>

lemma worker_turn_simps:
  "worker_turn fe True [] = Break"
  "worker_turn fe False [] = Wait"
  "worker_turn True True q = Break"
  "worker_turn False st (v # q) = Dequeue v q"
  "worker_turn fe False (v # q) = Dequeue v q"
  by (simp_all add: worker_turn_def cv_wait_def)

lemma worker_drain:
  "WorkerThread_worker False (Some k) q acc = Exited (acc @ q) []"
proof (induction q arbitrary: k acc)
  case Nil
  show ?case by (subst WorkerThread_worker.simps, cases k) (simp_all add: worker_turn_simps)
next
  case (Cons v q)
  show ?case by (subst WorkerThread_worker.simps) (simp add: worker_turn_simps Cons.IH)
qed

lemma worker_early:
  "WorkerThread_worker True (Some k) q acc = Exited (acc @ take k q) (drop k q)"
proof (induction k arbitrary: q acc)
  case 0
  show ?case by (subst WorkerThread_worker.simps) (simp add: worker_turn_simps)
next
  case (Suc k)
  show ?case
  proof (cases q)
    case Nil
    then show ?thesis by (subst WorkerThread_worker.simps) (simp add: worker_turn_simps)
  next
    case (Cons v q')
    then show ?thesis by (subst WorkerThread_worker.simps) (simp add: worker_turn_simps Suc.IH)
  qed
qed

lemma worker_never:
  "WorkerThread_worker fe None q acc = Waits (acc @ q) []"
proof (induction q arbitrary: acc)
  case Nil
  show ?case by (subst WorkerThread_worker.simps) (simp add: worker_turn_simps)
next
  case (Cons v q)
  show ?case by (subst WorkerThread_worker.simps) (simp add: worker_turn_simps Cons.IH)
qed

lemma body_drain: "WorkerThread_body False True (q, acc) = Some ([], acc @ q)"
  by (simp add: WorkerThread_body_def worker_drain)

lemma body_early: "WorkerThread_body True True (q, acc) = Some (q, acc)"
  by (simp add: WorkerThread_body_def worker_early)

lemma body_stop: "WorkerThread_body fe True g \<noteq> None"
  by (cases fe; cases g) (simp_all add: body_drain body_early)

text \<open>
  C3. A worker with \<open>finishEarly = false\<close> and a queue of K items when stop is requested,
  nothing being pushed afterwards: in every turn with an item in the queue it dequeues the
  front item, whatever its token reports; it leaves the loop at the empty queue; so its loop
  dequeues exactly the K items, in queue order, and then exits with the queue empty; and a
  \<^verbatim>\<open>join()\<close> on such a worker returns with all K items dequeued in that order.
\<close>

theorem finish_late_worker_drains_queue:
  "worker_turn False stop (v # queue) = Dequeue v queue \<and>
   worker_turn False True [] = Break \<and>
   WorkerThread_worker False (Some 0) queue acc = Exited (acc @ queue) [] \<and>
   (thr (mThread w) = Some Running \<and> token_stop_requested (get_stop_token (mThread w)) \<longrightarrow>
    WorkerThread_join (WorkerThread_body False) w (queue, acc) =
      Returns (w\<lparr>mThread := (mThread w)\<lparr>thr := None\<rparr>\<rparr>, ([], acc @ queue)) [Join])"
  by (simp add: worker_turn_simps worker_drain WorkerThread_join_def jthread_join_def
        joinable_def body_drain)

theorem finish_late_worker_drains_queue_witness:
  "WorkerThread_worker False (Some 0) [5, 4, 3, 2, 1] [] = Exited [5, 4, 3, 2, 1] [] \<and>
   WorkerThread_join (WorkerThread_body False)
     \<lparr>mThread = \<lparr>ssource = Some \<lparr>requested = True, callbacks = [], issued = 0\<rparr>,
                  thr = Some Running\<rparr>,
      mFinishEarly = False\<rparr>
     ([5, 4, 3, 2, 1], []) =
   Returns (\<lparr>mThread = \<lparr>ssource = Some \<lparr>requested = True, callbacks = [], issued = 0\<rparr>,
                        thr = None\<rparr>,
            mFinishEarly = False\<rparr>, ([], [5, 4, 3, 2, 1])) [Join :: unit event]"
  using finish_late_worker_drains_queue
    [where queue = "[5, 4, 3, 2, 1]" and acc = "[]" and
       w = "\<lparr>mThread = \<lparr>ssource = Some \<lparr>requested = True, callbacks = [], issued = 0\<rparr>,
                         thr = Some Running\<rparr>,
            mFinishEarly = False\<rparr> :: unit WorkerThread"]
  by (simp add: token_stop_requested_def get_stop_token_def stop_requested_def)

text \<open>
  C4. A worker with \<open>finishEarly = true\<close> and a queue of K items, stop being requested
  after \<open>k\<close> more turns and nothing being pushed: a turn taken with stop requested leaves the
  loop without dequeuing, whether the queue is empty or not; the loop dequeues the first
  \<open>k\<close> items if there are that many, all K otherwise, so at most K, and then exits.
\<close>

theorem finish_early_worker_exits:
  "worker_turn True True queue = Break \<and>
   WorkerThread_worker True (Some k) queue acc = Exited (acc @ take k queue) (drop k queue) \<and>
   length (take k queue) \<le> length queue \<and>
   WorkerThread_body True True (queue, acc) = Some (queue, acc)"
  by (simp add: worker_turn_simps worker_early body_early)

theorem finish_early_worker_exits_witness:
  "worker_turn True True [3, 2, 1] = Break \<and>
   WorkerThread_worker True (Some 2) [5, 4, 3, 2, 1] [] = Exited [5, 4] [3, 2, 1] \<and>
   WorkerThread_worker True (Some 0) [5, 4, 3, 2, 1] [] = Exited [] [5, 4, 3, 2, 1] \<and>
   WorkerThread_worker True (Some 9) [5, 4, 3, 2, 1] [] = Exited [5, 4, 3, 2, 1] []"
  using finish_early_worker_exits [of "[3, 2, 1]" 2 "[]"]
    finish_early_worker_exits [of "[5, 4, 3, 2, 1]" 2 "[]"]
    finish_early_worker_exits [of "[5, 4, 3, 2, 1]" 0 "[]"]
    finish_early_worker_exits [of "[5, 4, 3, 2, 1]" 9 "[]"]
  by simp

section \<open>Thread bodies and the stop request\<close>

lemma interruptableWorker_stop [simp]: "interruptableWorker True = Some ()"
  by (subst interruptableWorker.simps) simp

lemma interruptableWorker_returns_stop:
  assumes "interruptableWorker st = Some y" shows "st"
  by (rule interruptableWorker.raw_induct [where P = "\<lambda>st y. st", OF _ assms])
     (auto split: if_splits)

lemma interruptableWorker_loops [simp]: "interruptableWorker False = None"
  using interruptableWorker_returns_stop [of False] by (cases "interruptableWorker False") auto

lemma uninterruptableWorker_returns [simp]: "uninterruptableWorker i = Some ()"
proof (induction i rule: uninterruptableWorker.induct)
  case (1 i)
  then show ?case by (subst uninterruptableWorker.simps) simp
qed

lemma WorkerThreadT_worker_stop:
  "WorkerThreadT_worker tc d True lost done = (if lost \<and> \<not> tc d then None else Some ())"
  by (subst WorkerThreadT_worker.simps) simp

lemma SimpleWorkerThrad_body_stop:
  "SimpleWorkerThrad_body w True g =
     (if mInterruptable w \<and> \<not> SimpleWorkerThrad_token w True then None else Some ())"
  by (cases "SimpleWorkerThrad_token w True") (simp_all add: SimpleWorkerThrad_body_def)

lemma WorkerThreadT_body_stop:
  "WorkerThreadT_body tc lost w True g = (if lost \<and> \<not> tc (mData w) then None else Some ())"
  by (simp add: WorkerThreadT_body_def WorkerThreadT_worker_stop)

lemma request_stop_requested:
  "token_stop_requested (get_stop_token jt) \<Longrightarrow> jthread_request_stop jt = (False, [], jt)"
  by (auto simp: token_stop_requested_def get_stop_token_def jthread_request_stop_def
        request_stop_def stop_requested_def split: option.splits)

lemma request_stop_sets:
  "ssource jt \<noteq> None \<Longrightarrow>
   token_stop_requested (get_stop_token (snd (snd (jthread_request_stop jt))))"
  by (auto simp: token_stop_requested_def get_stop_token_def jthread_request_stop_def
        request_stop_def stop_requested_def split: option.splits)

lemma request_stop_thr [simp]: "thr (snd (snd (jthread_request_stop jt))) = thr jt"
  by (auto simp: jthread_request_stop_def request_stop_def split: option.splits)


lemmas eval_defs =
  joinable_def get_stop_token_def token_stop_requested_def stop_requested_def
  stop_possible_def jthread_default_def jthread_new_def new_stop_state_def
  jthread_request_stop_def request_stop_def

section \<open>Writing the data of a class-adv worker\<close>

text \<open>
  C10. \<^verbatim>\<open>setData(d)\<close> of class-adv returns the worker unchanged and notifies nothing when
  the thread is not joinable or when stop has been requested; for a joinable thread whose
  stop is not requested it stores \<open>d\<close> and notifies. Hence, once stop is requested,
  \<^verbatim>\<open>taskComplete()\<close> of either derived class has the same value after \<^verbatim>\<open>setData\<close> as before.
\<close>

theorem setData_frame:
  "(\<not> joinable (mThread w) \<or> token_stop_requested (get_stop_token (mThread w)) \<longrightarrow>
      WorkerThreadT_setData d w = (w, [])) \<and>
   (joinable (mThread w) \<and> \<not> token_stop_requested (get_stop_token (mThread w)) \<longrightarrow>
      WorkerThreadT_setData d w = (w\<lparr>mData := d\<rparr>, [Notify])) \<and>
   (token_stop_requested (get_stop_token (mThread wb)) \<longrightarrow>
      BoolWorkerThread_taskComplete (mData (fst (WorkerThreadT_setData b wb))) =
      BoolWorkerThread_taskComplete (mData wb)) \<and>
   (token_stop_requested (get_stop_token (mThread wi)) \<longrightarrow>
      IntWorkerThread_taskComplete mTarget (mData (fst (WorkerThreadT_setData i wi))) =
      IntWorkerThread_taskComplete mTarget (mData wi))"
  by (simp add: WorkerThreadT_setData_def)


theorem setData_frame_witness:
  "WorkerThreadT_setData (3 :: int)
     \<lparr>mThread = \<lparr>ssource = Some \<lparr>requested = True, callbacks = [], issued = 0\<rparr>,
                  thr = Some Running\<rparr>, mData = 0\<rparr> =
     (\<lparr>mThread = \<lparr>ssource = Some \<lparr>requested = True, callbacks = [], issued = 0\<rparr>,
                   thr = Some Running\<rparr>, mData = 0\<rparr>, [] :: unit event list) \<and>
   WorkerThreadT_setData True (WorkerThreadT_new False :: (unit, bool) WorkerThreadT) =
     (WorkerThreadT_new False, []) \<and>
   WorkerThreadT_setData (3 :: int) \<lparr>mThread = jthread_new, mData = 0\<rparr> =
     (\<lparr>mThread = jthread_new, mData = 3\<rparr>, [Notify :: unit event]) \<and>
   IntWorkerThread_taskComplete 3
     (mData (fst (WorkerThreadT_setData (3 :: int)
        (\<lparr>mThread = \<lparr>ssource = Some \<lparr>requested = True, callbacks = [], issued = 0\<rparr>,
                      thr = Some Running\<rparr>, mData = 0\<rparr> :: (unit, int) WorkerThreadT)))) =
   IntWorkerThread_taskComplete 3 0"
  using
    setData_frame [where d = "3 :: int" and i = "3 :: int" and mTarget = 3 and b = True and
      w = "\<lparr>mThread = \<lparr>ssource = Some \<lparr>requested = True, callbacks = [], issued = 0\<rparr>,
                        thr = Some Running\<rparr>, mData = 0\<rparr> :: (unit, int) WorkerThreadT" and
      wi = "\<lparr>mThread = \<lparr>ssource = Some \<lparr>requested = True, callbacks = [], issued = 0\<rparr>,
                         thr = Some Running\<rparr>, mData = 0\<rparr> :: (unit, int) WorkerThreadT" and
      wb = "WorkerThreadT_new False :: (unit, bool) WorkerThreadT"]
    setData_frame [where d = True and i = "3 :: int" and mTarget = 3 and b = True and
      w = "WorkerThreadT_new False :: (unit, bool) WorkerThreadT" and
      wi = "\<lparr>mThread = jthread_new, mData = 0\<rparr> :: (unit, int) WorkerThreadT" and
      wb = "WorkerThreadT_new False :: (unit, bool) WorkerThreadT"]
    setData_frame [where d = "3 :: int" and i = "3 :: int" and mTarget = 3 and b = True and
      w = "\<lparr>mThread = jthread_new, mData = 0\<rparr> :: (unit, int) WorkerThreadT" and
      wi = "\<lparr>mThread = jthread_new, mData = 0\<rparr> :: (unit, int) WorkerThreadT" and
      wb = "WorkerThreadT_new False :: (unit, bool) WorkerThreadT"]
  by (simp add: eval_defs WorkerThreadT_new_def)

section \<open>Stopping a worker\<close>

lemma stop_not_possible:
  "\<not> stop_possible (get_stop_token (mThread w)) \<Longrightarrow>
   WorkerThread_stop body block w g = Returns (w, g) []"
  by (simp add: WorkerThread_stop_def)

lemma stop_again:
  "token_stop_requested (get_stop_token (mThread w)) \<Longrightarrow>
   WorkerThread_stop body False w g = Returns (w, g) []"
  by (auto simp: WorkerThread_stop_def request_stop_requested stop_possible_def)


lemma requested_possible:
  "token_stop_requested tok \<Longrightarrow> stop_possible tok"
  by (cases tok) (simp_all add: token_stop_requested_def stop_possible_def)

lemma join_requested:
  assumes "token_stop_requested (get_stop_token jt)"
  shows "jthread_join body jt g =
     (case thr jt of
        None \<Rightarrow> Throws SystemError
      | Some Finished \<Rightarrow> Returns (jt\<lparr>thr := None\<rparr>, g) [Join]
      | Some Running \<Rightarrow>
          (case body True g of
             None \<Rightarrow> Blocks
           | Some g' \<Rightarrow> Returns (jt\<lparr>thr := None\<rparr>, g') [Join]))"
  using assms by (simp add: jthread_join_def split: option.splits tstatus.splits)

lemma stop_requested_block:
  assumes "token_stop_requested (get_stop_token (mThread w))"
  shows "WorkerThread_stop body True w g =
     (case thr (mThread w) of
        None \<Rightarrow> Throws SystemError
      | Some Finished \<Rightarrow> Returns (w\<lparr>mThread := (mThread w)\<lparr>thr := None\<rparr>\<rparr>, g) [Join]
      | Some Running \<Rightarrow>
          (case body True g of
             None \<Rightarrow> Blocks
           | Some g' \<Rightarrow> Returns (w\<lparr>mThread := (mThread w)\<lparr>thr := None\<rparr>\<rparr>, g') [Join]))"
  using assms requested_possible [OF assms]
  by (simp add: WorkerThread_stop_def request_stop_requested join_requested
        split: option.splits tstatus.splits)

lemma join_not_joinable:
  "\<not> joinable (mThread w) \<Longrightarrow> WorkerThread_join body w g = Returns (w, g) []"
  by (simp add: WorkerThread_join_def)

lemma SimpleWorkerThrad_stop_block:
  assumes "token_stop_requested (get_stop_token (mThread v))"
  shows "SimpleWorkerThrad_stop True v =
        (if joinable (mThread v) then
           (if thr (mThread v) = Some Running \<and> mInterruptable v \<and>
               \<not> SimpleWorkerThrad_token v True
            then Blocks
            else Returns (v\<lparr>mThread := (mThread v)\<lparr>thr := None\<rparr>\<rparr>, ()) [Join])
         else Throws SystemError)"
  unfolding SimpleWorkerThrad_stop_def
  by (simp add: stop_requested_block [where body = "SimpleWorkerThrad_body v" and g = "()",
          OF assms] joinable_def SimpleWorkerThrad_body_stop
        split: option.splits tstatus.splits)

lemma WorkerThread_stop_block:
  assumes "token_stop_requested (get_stop_token (mThread w))"
  shows "\<exists>g'. WorkerThread_stop (WorkerThread_body (mFinishEarly w)) True w g =
        (if joinable (mThread w)
         then Returns (w\<lparr>mThread := (mThread w)\<lparr>thr := None\<rparr>\<rparr>, g') [Join]
         else Throws SystemError)"
proof -
  obtain g' where b: "WorkerThread_body (mFinishEarly w) True g = Some g'"
    using body_stop [of "mFinishEarly w" g] by auto
  show ?thesis
    by (cases "thr (mThread w)")
       (auto simp: stop_requested_block [where body = "WorkerThread_body (mFinishEarly w)" and
             g = g, OF assms] b joinable_def split: tstatus.splits)
qed

lemma new_not_possible:
  "\<not> stop_possible (get_stop_token (mThread (SimpleWorkerThrad_new i)))"
  "\<not> stop_possible (get_stop_token (mThread (WorkerThread_new fe)))"
  by (simp_all add: SimpleWorkerThrad_new_def WorkerThread_new_def stop_possible_def
        get_stop_token_def jthread_default_def)


text \<open>
  C9. A worker that was never started has a token for which \<^verbatim>\<open>stop_possible()\<close> is false,
  and \<^verbatim>\<open>stop\<close>, blocking or not, returns it unchanged and causes no event. On a worker
  whose stop has been requested, the request inside \<^verbatim>\<open>stop\<close> performs no transition and
  invokes nothing, and \<^verbatim>\<open>stop()\<close> returns the worker unchanged with no event. But
  \<^verbatim>\<open>stop(true)\<close> on such a worker is no repetition without effect: its test is
  \<^verbatim>\<open>stop_possible()\<close>, which stays true when the thread has been joined, so it calls
  \<^verbatim>\<open>join()\<close> again, and on a worker whose thread was joined before, by an earlier
  \<^verbatim>\<open>stop(true)\<close> or by \<^verbatim>\<open>join()\<close>, that call throws \<^verbatim>\<open>std::system_error\<close>. The member
  \<^verbatim>\<open>join()\<close> of the same classes tests \<^verbatim>\<open>joinable()\<close> and returns such a worker unchanged.
  Stated for class-basic and class-more.
\<close>

theorem stop_twice_blocking_throws:
  "\<not> stop_possible (get_stop_token (mThread (SimpleWorkerThrad_new i :: 'a SimpleWorkerThrad))) \<and>
   \<not> stop_possible (get_stop_token (mThread (WorkerThread_new fe :: 'a WorkerThread))) \<and>
   SimpleWorkerThrad_stop block (SimpleWorkerThrad_new i :: 'a SimpleWorkerThrad) =
     Returns (SimpleWorkerThrad_new i, ()) [] \<and>
   WorkerThread_stop (WorkerThread_body fe) block (WorkerThread_new fe :: 'a WorkerThread) g =
     Returns (WorkerThread_new fe, g) [] \<and>
   (token_stop_requested (get_stop_token (mThread v)) \<longrightarrow>
      jthread_request_stop (mThread v) = (False, [], mThread v) \<and>
      SimpleWorkerThrad_stop False (v :: 'a SimpleWorkerThrad) = Returns (v, ()) [] \<and>
      SimpleWorkerThrad_stop True v =
        (if joinable (mThread v) then
           (if thr (mThread v) = Some Running \<and> mInterruptable v \<and>
               \<not> SimpleWorkerThrad_token v True
            then Blocks
            else Returns (v\<lparr>mThread := (mThread v)\<lparr>thr := None\<rparr>\<rparr>, ()) [Join])
         else Throws SystemError) \<and>
      (\<not> joinable (mThread v) \<longrightarrow> SimpleWorkerThrad_join v = Returns (v, ()) [])) \<and>
   (token_stop_requested (get_stop_token (mThread w)) \<longrightarrow>
      jthread_request_stop (mThread w) = (False, [], mThread w) \<and>
      WorkerThread_stop (WorkerThread_body (mFinishEarly w)) False (w :: 'a WorkerThread) g =
        Returns (w, g) [] \<and>
      (\<exists>g'. WorkerThread_stop (WorkerThread_body (mFinishEarly w)) True w g =
        (if joinable (mThread w)
         then Returns (w\<lparr>mThread := (mThread w)\<lparr>thr := None\<rparr>\<rparr>, g') [Join]
         else Throws SystemError)) \<and>
      (\<not> joinable (mThread w) \<longrightarrow>
         WorkerThread_join (WorkerThread_body (mFinishEarly w)) w g = Returns (w, g) []))"
proof (intro conjI impI)
  show "SimpleWorkerThrad_stop block (SimpleWorkerThrad_new i) =
        Returns (SimpleWorkerThrad_new i, ()) []"
    unfolding SimpleWorkerThrad_stop_def by (rule stop_not_possible) (rule new_not_possible)
  show "WorkerThread_stop (WorkerThread_body fe) block (WorkerThread_new fe) g =
        Returns (WorkerThread_new fe, g) []"
    by (rule stop_not_possible) (rule new_not_possible)
next
  assume "token_stop_requested (get_stop_token (mThread v))"
  then show "SimpleWorkerThrad_stop False v = Returns (v, ()) []"
    unfolding SimpleWorkerThrad_stop_def by (rule stop_again)
next
  assume "token_stop_requested (get_stop_token (mThread v))"
  then show "SimpleWorkerThrad_stop True v =
        (if joinable (mThread v) then
           (if thr (mThread v) = Some Running \<and> mInterruptable v \<and>
               \<not> SimpleWorkerThrad_token v True
            then Blocks
            else Returns (v\<lparr>mThread := (mThread v)\<lparr>thr := None\<rparr>\<rparr>, ()) [Join])
         else Throws SystemError)"
    by (rule SimpleWorkerThrad_stop_block)
next
  assume "\<not> joinable (mThread v)"
  then show "SimpleWorkerThrad_join v = Returns (v, ()) []"
    unfolding SimpleWorkerThrad_join_def by (rule join_not_joinable)
next
  assume "token_stop_requested (get_stop_token (mThread w))"
  then show "\<exists>g'. WorkerThread_stop (WorkerThread_body (mFinishEarly w)) True w g =
        (if joinable (mThread w)
         then Returns (w\<lparr>mThread := (mThread w)\<lparr>thr := None\<rparr>\<rparr>, g') [Join]
         else Throws SystemError)"
    by (rule WorkerThread_stop_block)
next
  assume "\<not> joinable (mThread w)"
  then show "WorkerThread_join (WorkerThread_body (mFinishEarly w)) w g = Returns (w, g) []"
    by (rule join_not_joinable)
qed (simp_all add: new_not_possible request_stop_requested stop_again)

theorem stop_twice_blocking_throws_witness:
  "SimpleWorkerThrad_start False (SimpleWorkerThrad_new True :: unit SimpleWorkerThrad) =
     Returns (\<lparr>mThread = jthread_new, mInterruptable = True, token = Own\<rparr>, ()) [Spawn] \<and>
   SimpleWorkerThrad_stop True
     (\<lparr>mThread = jthread_new, mInterruptable = True, token = Own\<rparr> :: unit SimpleWorkerThrad) =
     Returns (\<lparr>mThread = \<lparr>ssource = Some \<lparr>requested = True, callbacks = [], issued = 0\<rparr>,
                          thr = None\<rparr>, mInterruptable = True, token = Own\<rparr>, ()) [Stop, Join] \<and>
   SimpleWorkerThrad_stop True
     (\<lparr>mThread = \<lparr>ssource = Some \<lparr>requested = True, callbacks = [], issued = 0\<rparr>,
                   thr = None\<rparr>, mInterruptable = True, token = Own\<rparr> :: unit SimpleWorkerThrad) =
     Throws SystemError \<and>
   SimpleWorkerThrad_stop False
     (\<lparr>mThread = \<lparr>ssource = Some \<lparr>requested = True, callbacks = [], issued = 0\<rparr>,
                   thr = None\<rparr>, mInterruptable = True, token = Own\<rparr> :: unit SimpleWorkerThrad) =
     Returns (\<lparr>mThread = \<lparr>ssource = Some \<lparr>requested = True, callbacks = [], issued = 0\<rparr>,
                          thr = None\<rparr>, mInterruptable = True, token = Own\<rparr>, ()) [] \<and>
   SimpleWorkerThrad_join
     (\<lparr>mThread = \<lparr>ssource = Some \<lparr>requested = True, callbacks = [], issued = 0\<rparr>,
                   thr = None\<rparr>, mInterruptable = True, token = Own\<rparr> :: unit SimpleWorkerThrad) =
     Returns (\<lparr>mThread = \<lparr>ssource = Some \<lparr>requested = True, callbacks = [], issued = 0\<rparr>,
                          thr = None\<rparr>, mInterruptable = True, token = Own\<rparr>, ()) [] \<and>
   WorkerThread_stop (WorkerThread_body True) True
     (\<lparr>mThread = \<lparr>ssource = Some \<lparr>requested = True, callbacks = [], issued = 0\<rparr>,
                   thr = None\<rparr>, mFinishEarly = True\<rparr> :: unit WorkerThread) ([], [5, 4]) =
     Throws SystemError \<and>
   SimpleWorkerThrad_stop True (SimpleWorkerThrad_new True :: unit SimpleWorkerThrad) =
     Returns (SimpleWorkerThrad_new True, ()) []"
proof -
  let ?v = "\<lparr>mThread = \<lparr>ssource = Some \<lparr>requested = True, callbacks = [], issued = 0\<rparr>,
                        thr = None\<rparr>, mInterruptable = True, token = Own\<rparr> :: unit SimpleWorkerThrad"
  let ?w = "\<lparr>mThread = \<lparr>ssource = Some \<lparr>requested = True, callbacks = [], issued = 0\<rparr>,
                        thr = None\<rparr>, mFinishEarly = True\<rparr> :: unit WorkerThread"
  have v: "token_stop_requested (get_stop_token (mThread ?v))"
    and w: "token_stop_requested (get_stop_token (mThread ?w))"
    and j: "\<not> joinable (mThread ?v)" "\<not> joinable (mThread ?w)"
    by (simp_all add: eval_defs)
  have s: "SimpleWorkerThrad_start False (SimpleWorkerThrad_new True :: unit SimpleWorkerThrad) =
     Returns (\<lparr>mThread = jthread_new, mInterruptable = True, token = Own\<rparr>, ()) [Spawn]"
    by (simp add: SimpleWorkerThrad_start_def SimpleWorkerThrad_new_def WorkerThread_start_def
          jthread_assign_def jthread_release_def eval_defs)
  have t: "SimpleWorkerThrad_stop True
     (\<lparr>mThread = jthread_new, mInterruptable = True, token = Own\<rparr> :: unit SimpleWorkerThrad) =
     Returns (\<lparr>mThread = \<lparr>ssource = Some \<lparr>requested = True, callbacks = [], issued = 0\<rparr>,
                          thr = None\<rparr>, mInterruptable = True, token = Own\<rparr>, ()) [Stop, Join]"
    by (simp add: SimpleWorkerThrad_stop_def WorkerThread_stop_def jthread_join_def
          SimpleWorkerThrad_body_def SimpleWorkerThrad_token_def eval_defs)
  from v w j s t
    stop_twice_blocking_throws [where i = True and fe = False and block = True and
      g = "([], [5, 4])" and v = ?v and w = ?w]
  show ?thesis by simp
qed

section \<open>Destroying a worker\<close>


lemma release_no_throw: "jthread_release body jt g \<noteq> Throws e"
proof -
  obtain b evs jt' where rs: "jthread_request_stop jt = (b, evs, jt')"
    by (cases "jthread_request_stop jt") auto
  have t: "thr jt' = thr jt" using request_stop_thr [of jt] rs by simp
  show ?thesis
    by (auto simp: jthread_release_def joinable_def jthread_join_def rs t
          split: option.splits tstatus.splits)
qed



lemma release_total:
  assumes "ssource jt \<noteq> None"
  shows "jthread_release body jt g =
     (case thr jt of
        None \<Rightarrow> Returns (jt, g) []
      | Some Finished \<Rightarrow>
          Returns ((snd (snd (jthread_request_stop jt)))\<lparr>thr := None\<rparr>, g)
            (fst (snd (jthread_request_stop jt)) @ [Join])
      | Some Running \<Rightarrow>
          (case body True g of
             None \<Rightarrow> Blocks
           | Some g' \<Rightarrow>
               Returns ((snd (snd (jthread_request_stop jt)))\<lparr>thr := None\<rparr>, g')
                 (fst (snd (jthread_request_stop jt)) @ [Join])))"
proof -
  obtain b evs jt' where rs: "jthread_request_stop jt = (b, evs, jt')"
    by (cases "jthread_request_stop jt") auto
  have t: "thr jt' = thr jt" using request_stop_thr [of jt] rs by simp
  have q: "token_stop_requested (get_stop_token jt')"
    using request_stop_sets [OF assms] rs by simp
  show ?thesis
    by (simp add: jthread_release_def joinable_def rs join_requested [OF q] t
          split: option.splits tstatus.splits)
qed






section \<open>Starting a worker twice\<close>

lemma start_total:
  assumes "ssource (mThread w) \<noteq> None"
  shows "WorkerThread_start body w g =
     (case thr (mThread w) of
        None \<Rightarrow> Returns (w\<lparr>mThread := jthread_new\<rparr>, g) [Spawn]
      | Some Finished \<Rightarrow>
          Returns (w\<lparr>mThread := jthread_new\<rparr>, g)
            (Spawn # fst (snd (jthread_request_stop (mThread w))) @ [Join])
      | Some Running \<Rightarrow>
          (case body True g of
             None \<Rightarrow> Blocks
           | Some g' \<Rightarrow>
               Returns (w\<lparr>mThread := jthread_new\<rparr>, g')
                 (Spawn # fst (snd (jthread_request_stop (mThread w))) @ [Join])))"
  by (simp add: WorkerThread_start_def jthread_assign_def release_total [OF assms]
        split: option.splits tstatus.splits)

lemma start_first:
  assumes "thr (mThread w) = None"
  shows "WorkerThread_start body w g = Returns (w\<lparr>mThread := jthread_new\<rparr>, g) [Spawn]"
  using assms
  by (simp add: WorkerThread_start_def jthread_assign_def jthread_release_def joinable_def)

lemma start_no_throw: "WorkerThread_start body w g \<noteq> Throws e"
  using release_no_throw [of body "mThread w" g]
  by (auto simp: WorkerThread_start_def jthread_assign_def split: outcome.splits)

lemma start_spawns: "WorkerThread_start body w g \<noteq> Returns r []"
  by (auto simp: WorkerThread_start_def split: outcome.splits)


text \<open>
  C7, as claimed, fails: \<^verbatim>\<open>start()\<close> on the worker that \<^verbatim>\<open>start()\<close> has just returned is
  neither without effect nor an exception, in class-basic and in class-adv. It returns
  after starting a second thread, requesting stop on the first and joining it.
\<close>

theorem start_twice_counterexample:
  "SimpleWorkerThrad_start False (SimpleWorkerThrad_new True :: unit SimpleWorkerThrad) =
     Returns (\<lparr>mThread = jthread_new, mInterruptable = True, token = Own\<rparr>, ()) [Spawn] \<and>
   SimpleWorkerThrad_start False
     (\<lparr>mThread = jthread_new, mInterruptable = True, token = Own\<rparr> :: unit SimpleWorkerThrad) =
     Returns (\<lparr>mThread = jthread_new, mInterruptable = True, token = Own\<rparr>, ())
       [Spawn, Stop, Join] \<and>
   SimpleWorkerThrad_start False
     (\<lparr>mThread = jthread_new, mInterruptable = True, token = Own\<rparr> :: unit SimpleWorkerThrad) \<noteq>
     Returns (\<lparr>mThread = jthread_new, mInterruptable = True, token = Own\<rparr>, ()) [] \<and>
   SimpleWorkerThrad_start False
     (\<lparr>mThread = jthread_new, mInterruptable = True, token = Own\<rparr> :: unit SimpleWorkerThrad) \<noteq>
     Throws SystemError \<and>
   WorkerThreadT_start BoolWorkerThread_taskComplete False
     (WorkerThreadT_new False :: (unit, bool) WorkerThreadT) =
     Returns (\<lparr>mThread = jthread_new, mData = False\<rparr>, ()) [Spawn] \<and>
   WorkerThreadT_start BoolWorkerThread_taskComplete False
     (\<lparr>mThread = jthread_new, mData = False\<rparr> :: (unit, bool) WorkerThreadT) =
     Returns (\<lparr>mThread = jthread_new, mData = False\<rparr>, ()) [Spawn, Stop, Join]"
  by (simp add: SimpleWorkerThrad_start_def SimpleWorkerThrad_new_def WorkerThread_start_def
        WorkerThreadT_start_def WorkerThreadT_new_def WorkerThreadT_body_stop
        jthread_assign_def jthread_release_def jthread_join_def SimpleWorkerThrad_body_def
        SimpleWorkerThrad_token_def eval_defs)

text \<open>
  C7, amended. \<^verbatim>\<open>start()\<close> on a worker that has been started is not rejected: it never
  throws and never returns without having started a thread. It starts a new thread with a
  fresh stop state. If the worker still holds a joinable thread, it then requests stop on
  that thread, which invokes the actions registered there, and joins it, and returns with
  the worker holding the new thread; it returns when the body of the old thread has ended,
  and does not return when that body never ends. If the old thread was joined before,
  \<^verbatim>\<open>start()\<close> returns with the worker holding the new thread and no other event. The body
  of a running old thread ends once its stop is requested, except in class-basic when it
  is interruptable and holds a token that reports no stop, and in class-adv when the
  notification of the stop request is lost while the task is not complete. Stated for
  class-basic, class-adv and class-more.
\<close>

theorem start_twice_restarts:
  "(stop_possible (get_stop_token (mThread v)) \<longrightarrow>
      SimpleWorkerThrad_start early v =
        (if joinable (mThread v) then
           (if thr (mThread v) = Some Running \<and> mInterruptable v \<and>
               \<not> SimpleWorkerThrad_token v True
            then Blocks
            else Returns (v\<lparr>mThread := jthread_new,
                            token := (if early then Old (overwritten_token (mThread v)) else Own)\<rparr>,
                          ())
                   (Spawn # fst (snd (jthread_request_stop (mThread v))) @ [Join]))
         else Returns (v\<lparr>mThread := jthread_new,
                         token := (if early then Old (overwritten_token (mThread v)) else Own)\<rparr>,
                       ()) [Spawn])) \<and>
   (stop_possible (get_stop_token (mThread w)) \<longrightarrow>
      WorkerThreadT_start taskComplete lost w =
        (if joinable (mThread w) then
           (if thr (mThread w) = Some Running \<and> lost \<and> \<not> taskComplete (mData w)
            then Blocks
            else Returns (w\<lparr>mThread := jthread_new\<rparr>, ())
                   (Spawn # fst (snd (jthread_request_stop (mThread w))) @ [Join]))
         else Returns (w\<lparr>mThread := jthread_new\<rparr>, ()) [Spawn])) \<and>
   (stop_possible (get_stop_token (mThread u)) \<longrightarrow>
      (\<exists>g'. WorkerThread_start (WorkerThread_body (mFinishEarly u)) (u :: 'a WorkerThread) g =
        (if joinable (mThread u)
         then Returns (u\<lparr>mThread := jthread_new\<rparr>, g')
                (Spawn # fst (snd (jthread_request_stop (mThread u))) @ [Join])
         else Returns (u\<lparr>mThread := jthread_new\<rparr>, g) [Spawn]))) \<and>
   SimpleWorkerThrad_start early v \<noteq> Throws e \<and>
   (\<forall>r. SimpleWorkerThrad_start early v \<noteq> Returns r []) \<and>
   WorkerThreadT_start taskComplete lost w \<noteq> Throws e \<and>
   (\<forall>r. WorkerThreadT_start taskComplete lost w \<noteq> Returns r []) \<and>
   WorkerThread_start (WorkerThread_body (mFinishEarly u)) u g \<noteq> Throws e \<and>
   (\<forall>r. WorkerThread_start (WorkerThread_body (mFinishEarly u)) u g \<noteq> Returns r [])"
proof (intro conjI impI allI)
  assume "stop_possible (get_stop_token (mThread v))"
  then have s: "ssource (mThread v) \<noteq> None"
    by (simp add: stop_possible_def get_stop_token_def)
  show "SimpleWorkerThrad_start early v =
        (if joinable (mThread v) then
           (if thr (mThread v) = Some Running \<and> mInterruptable v \<and>
               \<not> SimpleWorkerThrad_token v True
            then Blocks
            else Returns (v\<lparr>mThread := jthread_new,
                            token := (if early then Old (overwritten_token (mThread v)) else Own)\<rparr>,
                          ())
                   (Spawn # fst (snd (jthread_request_stop (mThread v))) @ [Join]))
         else Returns (v\<lparr>mThread := jthread_new,
                         token := (if early then Old (overwritten_token (mThread v)) else Own)\<rparr>,
                       ()) [Spawn])"
    by (simp add: SimpleWorkerThrad_start_def joinable_def
          start_total [where body = "SimpleWorkerThrad_body v" and g = "()", OF s]
          SimpleWorkerThrad_body_stop split: option.splits tstatus.splits)
next
  assume "stop_possible (get_stop_token (mThread w))"
  then have s: "ssource (mThread w) \<noteq> None"
    by (simp add: stop_possible_def get_stop_token_def)
  show "WorkerThreadT_start taskComplete lost w =
        (if joinable (mThread w) then
           (if thr (mThread w) = Some Running \<and> lost \<and> \<not> taskComplete (mData w)
            then Blocks
            else Returns (w\<lparr>mThread := jthread_new\<rparr>, ())
                   (Spawn # fst (snd (jthread_request_stop (mThread w))) @ [Join]))
         else Returns (w\<lparr>mThread := jthread_new\<rparr>, ()) [Spawn])"
    by (simp add: WorkerThreadT_start_def joinable_def
          start_total [where body = "WorkerThreadT_body taskComplete lost w" and g = "()", OF s]
          WorkerThreadT_body_stop split: option.splits tstatus.splits)
next
  assume "stop_possible (get_stop_token (mThread u))"
  then have s: "ssource (mThread u) \<noteq> None"
    by (simp add: stop_possible_def get_stop_token_def)
  obtain g' where b: "WorkerThread_body (mFinishEarly u) True g = Some g'"
    using body_stop [of "mFinishEarly u" g] by auto
  show "\<exists>g'. WorkerThread_start (WorkerThread_body (mFinishEarly u)) u g =
        (if joinable (mThread u)
         then Returns (u\<lparr>mThread := jthread_new\<rparr>, g')
                (Spawn # fst (snd (jthread_request_stop (mThread u))) @ [Join])
         else Returns (u\<lparr>mThread := jthread_new\<rparr>, g) [Spawn])"
    by (cases "thr (mThread u)")
       (auto simp: joinable_def b
          start_total [where body = "WorkerThread_body (mFinishEarly u)" and g = g, OF s]
          split: tstatus.splits)
next
  show "SimpleWorkerThrad_start early v \<noteq> Throws e"
    using start_no_throw [of "SimpleWorkerThrad_body v" v "()" e]
    by (auto simp: SimpleWorkerThrad_start_def split: outcome.splits)
  show "WorkerThreadT_start taskComplete lost w \<noteq> Throws e"
    unfolding WorkerThreadT_start_def by (rule start_no_throw)
  show "WorkerThread_start (WorkerThread_body (mFinishEarly u)) u g \<noteq> Throws e"
    by (rule start_no_throw)
next
  fix r
  show "SimpleWorkerThrad_start early v \<noteq> Returns r []"
    using start_spawns [of "SimpleWorkerThrad_body v" v "()"]
    by (auto simp: SimpleWorkerThrad_start_def split: outcome.splits)
next
  fix r
  show "WorkerThreadT_start taskComplete lost w \<noteq> Returns r []"
    unfolding WorkerThreadT_start_def by (rule start_spawns)
next
  fix r
  show "WorkerThread_start (WorkerThread_body (mFinishEarly u)) u g \<noteq> Returns r []"
    by (rule start_spawns)
qed

theorem start_twice_restarts_witness:
  "SimpleWorkerThrad_start True
     (\<lparr>mThread = \<lparr>ssource = Some \<lparr>requested = False, callbacks = [(0, 7)], issued = 1\<rparr>,
                   thr = Some Running\<rparr>, mInterruptable = True, token = Own\<rparr>
      :: nat SimpleWorkerThrad) =
     Returns (\<lparr>mThread = jthread_new, mInterruptable = True,
               token = Old (Some \<lparr>requested = True, callbacks = [], issued = 1\<rparr>)\<rparr>, ())
       [Spawn, Stop, Fire 0 7, Join] \<and>
   SimpleWorkerThrad_start False
     (\<lparr>mThread = jthread_new, mInterruptable = True, token = Old None\<rparr> :: nat SimpleWorkerThrad) =
     Blocks \<and>
   SimpleWorkerThrad_start False
     (\<lparr>mThread = \<lparr>ssource = Some \<lparr>requested = False, callbacks = [], issued = 0\<rparr>,
                   thr = None\<rparr>, mInterruptable = False, token = Own\<rparr> :: nat SimpleWorkerThrad) =
     Returns (\<lparr>mThread = jthread_new, mInterruptable = False, token = Own\<rparr>, ()) [Spawn] \<and>
   WorkerThreadT_start BoolWorkerThread_taskComplete False
     (\<lparr>mThread = jthread_new, mData = False\<rparr> :: (unit, bool) WorkerThreadT) =
     Returns (\<lparr>mThread = jthread_new, mData = False\<rparr>, ()) [Spawn, Stop, Join] \<and>
   WorkerThreadT_start BoolWorkerThread_taskComplete True
     (\<lparr>mThread = jthread_new, mData = False\<rparr> :: (unit, bool) WorkerThreadT) = Blocks"
proof -
  let ?v1 = "\<lparr>mThread = \<lparr>ssource = Some \<lparr>requested = False, callbacks = [(0, 7)], issued = 1\<rparr>,
                   thr = Some Running\<rparr>, mInterruptable = True, token = Own\<rparr>
      :: nat SimpleWorkerThrad"
  let ?v2 = "\<lparr>mThread = jthread_new, mInterruptable = True, token = Old None\<rparr>
      :: nat SimpleWorkerThrad"
  let ?v3 = "\<lparr>mThread = \<lparr>ssource = Some \<lparr>requested = False, callbacks = [], issued = 0\<rparr>,
                   thr = None\<rparr>, mInterruptable = False, token = Own\<rparr> :: nat SimpleWorkerThrad"
  let ?w = "\<lparr>mThread = jthread_new, mData = False\<rparr> :: (unit, bool) WorkerThreadT"
  let ?u = "\<lparr>mThread = jthread_new, mFinishEarly = True\<rparr> :: nat WorkerThread"
  have p: "stop_possible (get_stop_token (mThread ?v1))"
    "stop_possible (get_stop_token (mThread ?v2))"
    "stop_possible (get_stop_token (mThread ?v3))"
    "stop_possible (get_stop_token (mThread ?w))"
    "stop_possible (get_stop_token (mThread ?u))"
    by (simp_all add: eval_defs)
  from p
    start_twice_restarts [where taskComplete = BoolWorkerThread_taskComplete and lost = False and
      early = True and e = SystemError and g = "([], [])" and v = ?v1 and w = ?w and u = ?u]
    start_twice_restarts [where taskComplete = BoolWorkerThread_taskComplete and lost = True and
      early = False and e = SystemError and g = "([], [])" and v = ?v2 and w = ?w and u = ?u]
    start_twice_restarts [where taskComplete = BoolWorkerThread_taskComplete and lost = True and
      early = False and e = SystemError and g = "([], [])" and v = ?v3 and w = ?w and u = ?u]
  show ?thesis
    by (simp add: eval_defs overwritten_token_def SimpleWorkerThrad_token_def
          BoolWorkerThread_taskComplete_def)
qed

section \<open>Executions of the stop state\<close>

lemma wf_new [simp]: "wf_state new_stop_state"
  by (simp add: wf_state_def new_stop_state_def)

lemma wf_perform: "wf_state s \<Longrightarrow> wf_state (snd (perform c s))"
  by (cases c)
     (auto simp: perform.simps wf_state_def request_stop_def register_callback_def
           destroy_callback_def distinct_map_filter)

lemma run_calls_Cons:
  "run_calls (c # cs) s =
     (fst (perform c s) @ fst (run_calls cs (snd (perform c s))),
      snd (run_calls cs (snd (perform c s))))"
  by (simp split: prod.splits)

declare run_calls.simps(2) [simp del]
declare perform.simps [simp del]

lemma wf_run: "wf_state s \<Longrightarrow> wf_state (snd (run_calls cs s))"
proof (induction cs arbitrary: s)
  case Nil
  then show ?case by simp
next
  case (Cons c cs)
  from Cons.IH [OF wf_perform [OF Cons.prems, of c]]
  show ?case by (simp add: run_calls_Cons)
qed

lemma results_append [simp]: "results (xs @ ys) = results xs @ results ys"
proof (induction xs)
  case Nil
  show ?case by simp
next
  case (Cons x xs)
  then show ?case by (cases x) simp_all
qed

lemma runs_append [simp]: "runs i (xs @ ys) = runs i xs + runs i ys"
proof (induction xs)
  case Nil
  show ?case by simp
next
  case (Cons x xs)
  then show ?case by (cases x) simp_all
qed

lemma results_fired [simp]: "results (map (\<lambda>c. Ran t (fst c) (snd c)) fired) = []"
  by (induction fired) simp_all

lemma runs_fired:
  "runs i (map (\<lambda>c. Ran t (fst c) (snd c)) fired) = length (filter (\<lambda>c. fst c = i) fired)"
  by (induction fired) simp_all

lemma count_distinct:
  "distinct (map fst xs) \<Longrightarrow>
   length (filter (\<lambda>c. fst c = i) xs) = (if i \<in> fst ` set xs then 1 else 0)"
  by (induction xs) (auto simp: image_iff)

text \<open>One call: what it returns, what it runs, and the state it leaves.\<close>

lemma perform_results:
  "results (fst (perform c s)) = (if is_request c then [\<not> requested s] else [])"
  by (cases c) (simp_all add: perform.simps request_stop_def register_callback_def)

lemma perform_requested:
  "requested (snd (perform c s)) = (requested s \<or> is_request c)"
  by (cases c)
     (simp_all add: perform.simps request_stop_def register_callback_def destroy_callback_def)

lemma results_requested:
  "requested s \<Longrightarrow>
   results (fst (run_calls cs s)) = replicate (length (filter is_request cs)) False"
proof (induction cs arbitrary: s)
  case Nil
  then show ?case by simp
next
  case (Cons c cs)
  have r: "requested (snd (perform c s))" using Cons.prems by (simp add: perform_requested)
  show ?case
    using Cons.IH [OF r] perform_results [of c s] Cons.prems
    by (simp add: run_calls_Cons)
qed

lemma results_fresh:
  "\<not> requested s \<Longrightarrow>
   results (fst (run_calls cs s)) =
     (if filter is_request cs = [] then []
      else True # replicate (length (filter is_request cs) - 1) False)"
proof (induction cs arbitrary: s)
  case Nil
  then show ?case by simp
next
  case (Cons c cs)
  show ?case
  proof (cases "is_request c")
    case True
    then have r: "requested (snd (perform c s))" by (simp add: perform_requested)
    show ?thesis
      using results_requested [OF r, of cs] perform_results [of c s] Cons.prems True
      by (simp add: run_calls_Cons)
  next
    case False
    then have r: "\<not> requested (snd (perform c s))"
      using Cons.prems by (simp add: perform_requested)
    show ?thesis
      using Cons.IH [OF r] perform_results [of c s] False
      by (simp add: run_calls_Cons)
  qed
qed

lemma run_requested:
  "requested (snd (run_calls cs s)) = (requested s \<or> (\<exists>c \<in> set cs. is_request c))"
proof (induction cs arbitrary: s)
  case Nil
  then show ?case by simp
next
  case (Cons c cs)
  show ?case using Cons.IH [of "snd (perform c s)"]
    by (auto simp: perform_requested run_calls_Cons)
qed


lemma wf_pending_fresh: "wf_state s \<Longrightarrow> pending i s \<Longrightarrow> \<not> requested s \<and> i < issued s"
  by (auto simp: wf_state_def pending_def)

lemma perform_runs:
  assumes "wf_state s"
  shows "runs i (fst (perform c s)) =
     (case c of
        RequestStop t \<Rightarrow> if pending i s then 1 else 0
      | Register t a \<Rightarrow> if requested s \<and> i = issued s then 1 else 0
      | Destroy t j \<Rightarrow> 0)"
proof (cases c)
  case (RequestStop t)
  show ?thesis
  proof (cases "requested s")
    case True
    then have "callbacks s = []" using assms by (simp add: wf_state_def)
    then show ?thesis using True RequestStop
      by (simp add: perform.simps request_stop_def pending_def)
  next
    case False
    have "distinct (map fst (callbacks s))" using assms by (simp add: wf_state_def)
    from count_distinct [OF this, of i] show ?thesis using False RequestStop
      by (simp add: perform.simps request_stop_def pending_def runs_fired)
  qed
next
  case (Register t a)
  then show ?thesis by (auto simp: perform.simps register_callback_def)
next
  case (Destroy t j)
  then show ?thesis by (simp add: perform.simps)
qed

lemma pending_iff: "pending i s = (\<exists>a. (i, a) \<in> set (callbacks s))"
  by (force simp: pending_def)

lemma perform_pending:
  assumes "wf_state s"
  shows "pending i (snd (perform c s)) =
     (case c of
        RequestStop t \<Rightarrow> False
      | Register t a \<Rightarrow> pending i s \<or> (\<not> requested s \<and> i = issued s)
      | Destroy t j \<Rightarrow> pending i s \<and> j \<noteq> i)"
proof (cases c)
  case (RequestStop t)
  then show ?thesis using assms
    by (simp add: perform.simps request_stop_def pending_iff wf_state_def)
next
  case (Register t a)
  then show ?thesis using assms
    by (auto simp: perform.simps register_callback_def pending_iff wf_state_def)
next
  case (Destroy t j)
  then show ?thesis
    by (auto simp: perform.simps destroy_callback_def pending_iff)
qed

lemma perform_issued:
  "issued (snd (perform c s)) = (case c of Register t a \<Rightarrow> Suc (issued s) | _ \<Rightarrow> issued s)"
  by (cases c)
     (simp_all add: perform.simps request_stop_def register_callback_def destroy_callback_def)

lemma dead_never_runs:
  "wf_state s \<Longrightarrow> i < issued s \<Longrightarrow> \<not> pending i s \<Longrightarrow> runs i (fst (run_calls cs s)) = 0"
proof (induction cs arbitrary: s)
  case Nil
  show ?case by simp
next
  case (Cons c cs)
  have w: "wf_state (snd (perform c s))" using Cons.prems(1) by (rule wf_perform)
  have i: "i < issued (snd (perform c s))"
    using Cons.prems(2) by (cases c) (simp_all add: perform_issued)
  have p: "\<not> pending i (snd (perform c s))"
    using Cons.prems by (cases c) (simp_all add: perform_pending)
  have r: "runs i (fst (perform c s)) = 0"
    using Cons.prems by (cases c) (simp_all add: perform_runs)
  from Cons.IH [OF w i p] r show ?case by (simp add: run_calls_Cons)
qed

lemma runs_at_most_once:
  "wf_state s \<Longrightarrow> runs i (fst (run_calls cs s)) \<le> 1"
proof (induction cs arbitrary: s)
  case Nil
  show ?case by simp
next
  case (Cons c cs)
  have w: "wf_state (snd (perform c s))" using Cons.prems by (rule wf_perform)
  show ?case
  proof (cases "runs i (fst (perform c s)) = 0")
    case True
    with Cons.IH [OF w] show ?thesis by (simp add: run_calls_Cons)
  next
    case False
    then have one: "runs i (fst (perform c s)) = 1"
      using Cons.prems by (cases c) (simp_all add: perform_runs split: if_splits)
    have i: "i < issued (snd (perform c s))"
      using False Cons.prems wf_pending_fresh [OF Cons.prems, of i]
      by (cases c) (simp_all add: perform_runs perform_issued split: if_splits)
    have p: "\<not> pending i (snd (perform c s))"
      using False Cons.prems wf_pending_fresh [OF Cons.prems, of i]
      by (cases c) (auto simp: perform_runs perform_pending split: if_splits)
    from dead_never_runs [OF w i p] one show ?thesis by (simp add: run_calls_Cons)
  qed
qed

text \<open>
  A registration that is stored, or still to be made, and whose handle is never destroyed,
  is invoked exactly once in an execution that has a stop request.
\<close>

lemma kept_runs_once:
  "wf_state s \<Longrightarrow> \<forall>c \<in> set cs. \<not> destroys i c \<Longrightarrow>
   requested s \<or> (\<exists>c \<in> set cs. is_request c) \<Longrightarrow>
   i < issued (snd (run_calls cs s)) \<Longrightarrow> (i < issued s \<longrightarrow> pending i s) \<Longrightarrow>
   runs i (fst (run_calls cs s)) = 1"
proof (induction cs arbitrary: s)
  case Nil
  from Nil.prems(4,5) have "pending i s" by simp
  from wf_pending_fresh [OF Nil.prems(1) this] Nil.prems(3) show ?case by simp
next
  case (Cons c cs)
  let ?s = "snd (perform c s)"
  have w: "wf_state ?s" using Cons.prems(1) by (rule wf_perform)
  have d: "\<forall>c \<in> set cs. \<not> destroys i c" using Cons.prems(2) by simp
  have nd: "\<not> destroys i c" using Cons.prems(2) by simp
  have fin: "i < issued (snd (run_calls cs ?s))" using Cons.prems(4) by (simp add: run_calls_Cons)
  have fresh: "pending i s \<Longrightarrow> \<not> requested s \<and> i < issued s"
    by (rule wf_pending_fresh [OF Cons.prems(1)])
  show ?case
  proof (cases "runs i (fst (perform c s)) = 0")
    case False
    then have one: "runs i (fst (perform c s)) = 1"
      using Cons.prems(1) by (cases c) (simp_all add: perform_runs split: if_splits)
    have i: "i < issued ?s"
      using False Cons.prems(1) fresh
      by (cases c) (simp_all add: perform_runs perform_issued split: if_splits)
    have p: "\<not> pending i ?s"
    proof (cases c)
      case (RequestStop t)
      then show ?thesis using Cons.prems(1) by (simp add: perform_pending)
    next
      case (Register t a)
      then show ?thesis using False Cons.prems(1) fresh
        by (auto simp: perform_runs perform_pending split: if_splits)
    next
      case (Destroy t j)
      then show ?thesis using False Cons.prems(1) by (simp add: perform_runs)
    qed
    from dead_never_runs [OF w i p] one show ?thesis by (simp add: run_calls_Cons)
  next
    case True
    have r: "requested ?s \<or> (\<exists>c \<in> set cs. is_request c)"
      using Cons.prems(3) by (auto simp: perform_requested)
    have k: "i < issued ?s \<longrightarrow> pending i ?s"
    proof (cases c)
      case (RequestStop t)
      then have "\<not> pending i s" using True Cons.prems(1) by (simp add: perform_runs split: if_splits)
      then have "\<not> i < issued s" using Cons.prems(5) by simp
      then show ?thesis using RequestStop by (simp add: perform_issued)
    next
      case (Register t a)
      show ?thesis
      proof
        assume "i < issued ?s"
        then have "i < issued s \<or> i = issued s" using Register by (auto simp: perform_issued)
        then show "pending i ?s"
        proof
          assume "i < issued s"
          then show ?thesis using Cons.prems(1,5) Register by (simp add: perform_pending)
        next
          assume e: "i = issued s"
          then have "\<not> requested s" using True Cons.prems(1) Register
            by (simp add: perform_runs split: if_splits)
          then show ?thesis using e Cons.prems(1) Register by (simp add: perform_pending)
        qed
      qed
    next
      case (Destroy t j)
      then show ?thesis using nd Cons.prems(1,5) by (auto simp: perform_issued perform_pending)
    qed
    from Cons.IH [OF w d r fin k] True show ?thesis by (simp add: run_calls_Cons)
  qed
qed

text \<open>A registration whose handle is destroyed while it is stored is never invoked.\<close>

lemma destroyed_never_runs:
  assumes "wf_state s" and "i < issued s"
  shows "runs i (fst (run_calls (Destroy t i # cs) s)) = 0"
proof -
  let ?s = "snd (perform (Destroy t i) s)"
  have w: "wf_state ?s" using assms(1) by (rule wf_perform)
  have i: "i < issued ?s" using assms(2) by (simp add: perform_issued)
  have p: "\<not> pending i ?s" using assms(1) by (simp add: perform_pending)
  from dead_never_runs [OF w i p] show ?thesis
    using assms(1) by (simp add: run_calls_Cons perform_runs)
qed


lemma issued_mono: "issued s \<le> issued (snd (run_calls cs s))"
proof (induction cs arbitrary: s)
  case Nil
  show ?case by simp
next
  case (Cons c cs)
  have "issued s \<le> issued (snd (perform c s))" by (cases c) (simp_all add: perform_issued)
  with Cons.IH [of "snd (perform c s)"] show ?case by (simp add: run_calls_Cons)
qed

lemma fired_runs_once:
  assumes "wf_state s" and "pending i s"
  shows "runs i (fst (run_calls (RequestStop t # cs) s)) = 1"
proof -
  let ?s = "snd (perform (RequestStop t) s)"
  have w: "wf_state ?s" using assms(1) by (rule wf_perform)
  have i: "i < issued ?s" using wf_pending_fresh [OF assms] by (simp add: perform_issued)
  have p: "\<not> pending i ?s" using assms(1) by (simp add: perform_pending)
  from dead_never_runs [OF w i p] show ?thesis
    using assms by (simp add: run_calls_Cons perform_runs)
qed

lemma immediate_runs_once:
  assumes "wf_state s" and "requested s"
  shows "runs (issued s) (fst (run_calls (Register t a # cs) s)) = 1"
proof -
  let ?s = "snd (perform (Register t a) s)"
  have w: "wf_state ?s" using assms(1) by (rule wf_perform)
  have i: "issued s < issued ?s" by (simp add: perform_issued)
  have "\<not> pending (issued s) s" using wf_pending_fresh [OF assms(1), of "issued s"] by auto
  then have p: "\<not> pending (issued s) ?s" using assms by (simp add: perform_pending)
  from dead_never_runs [OF w i p] show ?thesis
    using assms by (simp add: run_calls_Cons perform_runs)
qed

lemma stopThread_again:
  "stopThread (fst (stopThread jt)) = (fst (stopThread jt), [])"
  by (auto simp: stopThread_def stop_possible_def get_stop_token_def jthread_request_stop_def
        request_stop_def split: option.splits)

lemma stopThread_first:
  "ssource jt = Some s \<Longrightarrow> \<not> requested s \<Longrightarrow>
   stopThread jt =
     (jt\<lparr>ssource := Some (s\<lparr>requested := True, callbacks := []\<rparr>)\<rparr>,
      Stop # map (\<lambda>c. Fire (fst c) (snd c)) (callbacks s))"
  by (simp add: stopThread_def stop_possible_def get_stop_token_def jthread_request_stop_def
        request_stop_def)

lemma request_fires_inside:
  assumes "\<not> requested s" and "(i, a) \<in> set (callbacks s)"
  shows "\<exists>pre post. fst (perform (RequestStop t) s) = pre @ Ran t i a # post @ [Returned t True]"
proof -
  from assms(2) obtain xs ys where c: "callbacks s = xs @ (i, a) # ys"
    by (auto simp: in_set_conv_decomp)
  have "fst (perform (RequestStop t) s) =
        map (\<lambda>c. Ran t (fst c) (snd c)) xs @ Ran t i a #
        map (\<lambda>c. Ran t (fst c) (snd c)) ys @ [Returned t True]"
    using assms(1) c by (simp add: perform.simps request_stop_def)
  then show ?thesis by blast
qed

lemmas trace_defs =
  run_calls_Cons perform.simps request_stop_def register_callback_def destroy_callback_def
  new_stop_state_def stop_requested_def


text \<open>
  C1. Take any sequence of calls on a new stop state, made by any threads, that has at
  least one \<^verbatim>\<open>request_stop()\<close>. Exactly one of the \<^verbatim>\<open>request_stop()\<close> calls returns true,
  the one that takes effect first, and every other returns false; afterwards
  \<^verbatim>\<open>stop_requested()\<close> is true; no registration is invoked twice, and every registration
  whose handle is never destroyed is invoked exactly once. For \<^verbatim>\<open>stopThread\<close> of
  adv-stopping: on a thread whose stop is not requested it performs the transition and
  invokes each stored action once, and a call after it causes no event.
\<close>

theorem request_stop_one_winner:
  "((\<exists>c \<in> set cs. is_request c) \<longrightarrow>
      results (fst (run_calls cs new_stop_state)) =
        True # replicate (length (filter is_request cs) - 1) False \<and>
      stop_requested (snd (run_calls cs new_stop_state)) \<and>
      (\<forall>i. runs i (fst (run_calls cs new_stop_state)) \<le> 1) \<and>
      (\<forall>i < issued (snd (run_calls cs new_stop_state)).
         (\<forall>c \<in> set cs. \<not> destroys i c) \<longrightarrow>
         runs i (fst (run_calls cs new_stop_state)) = 1)) \<and>
   (ssource jt = Some s \<and> \<not> requested s \<longrightarrow>
      stopThread jt =
        (jt\<lparr>ssource := Some (s\<lparr>requested := True, callbacks := []\<rparr>)\<rparr>,
         Stop # map (\<lambda>c. Fire (fst c) (snd c)) (callbacks s))) \<and>
   stopThread (fst (stopThread jt)) = (fst (stopThread jt), [])"
proof (intro conjI impI allI)
  assume r: "\<exists>c \<in> set cs. is_request c"
  then have "filter is_request cs \<noteq> []" by (simp add: filter_empty_conv)
  then show "results (fst (run_calls cs new_stop_state)) =
        True # replicate (length (filter is_request cs) - 1) False"
    using results_fresh [of new_stop_state cs] by (simp add: new_stop_state_def)
  show "stop_requested (snd (run_calls cs new_stop_state))"
    using r by (simp add: stop_requested_def run_requested)
next
  fix i show "runs i (fst (run_calls cs new_stop_state)) \<le> 1"
    by (rule runs_at_most_once) simp
next
  fix i
  assume r: "\<exists>c \<in> set cs. is_request c"
    and i: "i < issued (snd (run_calls cs new_stop_state))"
    and d: "\<forall>c \<in> set cs. \<not> destroys i c"
  show "runs i (fst (run_calls cs new_stop_state)) = 1"
    by (rule kept_runs_once [OF wf_new d _ i]) (simp_all add: r new_stop_state_def)
next
  assume "ssource jt = Some s \<and> \<not> requested s"
  then show "stopThread jt =
        (jt\<lparr>ssource := Some (s\<lparr>requested := True, callbacks := []\<rparr>)\<rparr>,
         Stop # map (\<lambda>c. Fire (fst c) (snd c)) (callbacks s))"
    by (simp add: stopThread_first)
next
  show "stopThread (fst (stopThread jt)) = (fst (stopThread jt), [])"
    by (rule stopThread_again)
qed

theorem request_stop_one_winner_witness:
  "results (fst (run_calls
      [Register 0 (7 :: nat), RequestStop 1, RequestStop 2, Register 2 8, RequestStop 0]
      new_stop_state)) = [True, False, False] \<and>
   fst (run_calls
      [Register 0 (7 :: nat), RequestStop 1, RequestStop 2, Register 2 8, RequestStop 0]
      new_stop_state) =
     [Ran 1 0 7, Returned 1 True, Returned 2 False, Ran 2 1 8, Returned 0 False] \<and>
   stopThread (jthread_new :: nat jthread) =
     (\<lparr>ssource = Some \<lparr>requested = True, callbacks = [], issued = 0\<rparr>, thr = Some Running\<rparr>,
      [Stop])"
  using request_stop_one_winner
    [where cs = "[Register 0 (7 :: nat), RequestStop 1, RequestStop 2, Register 2 8, RequestStop 0]"
       and jt = "jthread_new :: nat jthread" and s = "new_stop_state"]
  by (simp add: trace_defs jthread_new_def)


text \<open>
  C2. In a well-formed stop state: registering on a state whose stop is requested invokes
  the action at once, on the registering thread, stores nothing, and the action is invoked
  exactly once however the execution goes on; registering on a state whose stop is not
  requested stores the action and invokes nothing; a \<^verbatim>\<open>request_stop()\<close> on a state not yet
  requested invokes each stored action on the calling thread before it returns true, and
  leaves nothing stored; a stored action whose handle is not destroyed is invoked exactly
  once in an execution that has a stop request; and no registration is invoked more than
  once in any execution. \<^verbatim>\<open>addCallback\<close> of the worker classes registers on the stop state
  of the worker's thread in just this way.
\<close>

theorem callback_runs_once:
  "wf_state s \<longrightarrow>
   (requested s \<longrightarrow>
      perform (Register t a) s = ([Ran t (issued s) a], s\<lparr>issued := Suc (issued s)\<rparr>) \<and>
      runs (issued s) (fst (run_calls (Register t a # cs) s)) = 1) \<and>
   (\<not> requested s \<longrightarrow>
      perform (Register t a) s =
        ([], s\<lparr>callbacks := callbacks s @ [(issued s, a)], issued := Suc (issued s)\<rparr>)) \<and>
   (\<not> requested s \<and> (i, a) \<in> set (callbacks s) \<longrightarrow>
      (\<exists>pre post.
         fst (perform (RequestStop u) s) = pre @ Ran u i a # post @ [Returned u True]) \<and>
      callbacks (snd (perform (RequestStop u) s)) = []) \<and>
   (\<not> requested s \<and> (\<exists>c \<in> set cs. is_request c) \<and>
    (\<forall>c \<in> set cs. \<not> destroys (issued s) c) \<longrightarrow>
      runs (issued s) (fst (run_calls (Register t a # cs) s)) = 1) \<and>
   (\<forall>j. runs j (fst (run_calls cs s)) \<le> 1) \<and>
   (ssource (mThread w) = Some s \<and> requested s \<longrightarrow>
      WorkerThread_addCallback a w =
        (w\<lparr>mThread := (mThread w)\<lparr>ssource := Some (s\<lparr>issued := Suc (issued s)\<rparr>)\<rparr>\<rparr>,
         Some (issued s), [Fire (issued s) a])) \<and>
   (ssource (mThread w) = Some s \<and> \<not> requested s \<longrightarrow>
      WorkerThread_addCallback a w =
        (w\<lparr>mThread := (mThread w)\<lparr>ssource :=
              Some (s\<lparr>callbacks := callbacks s @ [(issued s, a)], issued := Suc (issued s)\<rparr>)\<rparr>\<rparr>,
         Some (issued s), []))"
proof (intro conjI impI allI)
  assume "wf_state s" and "requested s"
  then show "runs (issued s) (fst (run_calls (Register t a # cs) s)) = 1"
    by (rule immediate_runs_once)
next
  assume "wf_state s" and "\<not> requested s \<and> (i, a) \<in> set (callbacks s)"
  then show "\<exists>pre post.
         fst (perform (RequestStop u) s) = pre @ Ran u i a # post @ [Returned u True]"
    by (simp add: request_fires_inside)
next
  assume w: "wf_state s"
    and h: "\<not> requested s \<and> (\<exists>c \<in> set cs. is_request c) \<and>
            (\<forall>c \<in> set cs. \<not> destroys (issued s) c)"
  have d: "\<forall>c \<in> set (Register t a # cs). \<not> destroys (issued s) c" using h by simp
  have r: "requested s \<or> (\<exists>c \<in> set (Register t a # cs). is_request c)" using h by simp
  have "issued (snd (perform (Register t a) s)) \<le>
        issued (snd (run_calls cs (snd (perform (Register t a) s))))"
    by (rule issued_mono)
  then have i: "issued s < issued (snd (run_calls (Register t a # cs) s))"
    by (simp add: run_calls_Cons perform_issued)
  show "runs (issued s) (fst (run_calls (Register t a # cs) s)) = 1"
    by (rule kept_runs_once [OF w d r i]) simp
next
  fix j assume "wf_state s"
  then show "runs j (fst (run_calls cs s)) \<le> 1" by (rule runs_at_most_once)
qed (simp_all add: perform.simps register_callback_def request_stop_def
       WorkerThread_addCallback_def stop_callback_new_def get_stop_token_def)

theorem callback_runs_once_witness:
  "perform (Register 3 (8 :: nat)) \<lparr>requested = True, callbacks = [], issued = 1\<rparr> =
     ([Ran 3 1 8], \<lparr>requested = True, callbacks = [], issued = 2\<rparr>) \<and>
   fst (run_calls [Register 3 (8 :: nat), Register 1 9, RequestStop 2, RequestStop 1, Destroy 3 0]
          new_stop_state) =
     [Ran 2 0 8, Ran 2 1 9, Returned 2 True, Returned 1 False] \<and>
   runs 0 (fst (run_calls
     [Register 3 (8 :: nat), Register 1 9, RequestStop 2, RequestStop 1, Destroy 3 0]
     new_stop_state)) = 1"
  using
    callback_runs_once [where s = "\<lparr>requested = True, callbacks = [], issued = 1\<rparr>" and
      t = 3 and a = "8 :: nat" and cs = "[]" and i = 0 and u = 0 and
      w = "\<lparr>mThread = jthread_default\<rparr>"]
    callback_runs_once [where s = "new_stop_state" and
      t = 3 and a = "8 :: nat" and
      cs = "[Register 1 9, RequestStop 2, RequestStop 1, Destroy 3 0]" and i = 0 and u = 0 and
      w = "\<lparr>mThread = jthread_default\<rparr>"]
  by (simp add: trace_defs wf_state_def)

text \<open>
  C8. In a well-formed stop state with registration \<open>i\<close> stored (so stop is not yet
  requested): once its handle is destroyed the action is never invoked, whatever calls
  follow; when the destruction and a \<^verbatim>\<open>request_stop()\<close> come together, the action is never
  invoked if the destruction takes effect first and is invoked exactly once if the request
  does; and in no execution is it invoked more than once.
\<close>

theorem destroyed_callback_never_runs:
  "wf_state s \<and> pending i s \<longrightarrow>
   runs i (fst (run_calls (Destroy t i # cs) s)) = 0 \<and>
   runs i (fst (run_calls (Destroy t i # RequestStop u # cs) s)) = 0 \<and>
   runs i (fst (run_calls (RequestStop u # Destroy t i # cs) s)) = 1 \<and>
   runs i (fst (run_calls cs s)) \<le> 1"
proof (intro impI conjI)
  assume h: "wf_state s \<and> pending i s"
  then have w: "wf_state s" and p: "pending i s" by simp_all
  have i: "i < issued s" using wf_pending_fresh [OF w p] by simp
  show "runs i (fst (run_calls (Destroy t i # cs) s)) = 0"
    by (rule destroyed_never_runs [OF w i])
  show "runs i (fst (run_calls (Destroy t i # RequestStop u # cs) s)) = 0"
    by (rule destroyed_never_runs [OF w i])
  show "runs i (fst (run_calls (RequestStop u # Destroy t i # cs) s)) = 1"
    by (rule fired_runs_once [OF w p])
  show "runs i (fst (run_calls cs s)) \<le> 1"
    by (rule runs_at_most_once [OF w])
qed

theorem destroyed_callback_never_runs_witness:
  "runs 0 (fst (run_calls [Destroy 1 0, RequestStop 2]
      \<lparr>requested = False, callbacks = [(0, 8 :: nat)], issued = 1\<rparr>)) = 0 \<and>
   runs 0 (fst (run_calls [RequestStop 2, Destroy 1 0]
      \<lparr>requested = False, callbacks = [(0, 8 :: nat)], issued = 1\<rparr>)) = 1 \<and>
   fst (run_calls [RequestStop 2, Destroy 1 0]
      \<lparr>requested = False, callbacks = [(0, 8 :: nat)], issued = 1\<rparr>) =
     [Ran 2 0 8, Returned 2 True] \<and>
   fst (run_calls [Destroy 1 0, RequestStop 2]
      \<lparr>requested = False, callbacks = [(0, 8 :: nat)], issued = 1\<rparr>) = [Returned 2 True]"
  using
    destroyed_callback_never_runs
      [where s = "\<lparr>requested = False, callbacks = [(0, 8 :: nat)], issued = 1\<rparr>" and
         i = 0 and t = 1 and u = 2 and cs = "[]"]
  by (simp add: trace_defs wf_state_def pending_def)


section \<open>Shutting the pool down\<close>

lemma special_pos: "1 \<le> n \<Longrightarrow> SPECIAL_THREAD n = n div 2"
  by (simp add: SPECIAL_THREAD_def)

lemma inv_init: "1 \<le> n \<Longrightarrow> pool_inv n init"
  by (simp add: pool_inv_def init_def)

text \<open>The calls main makes, on the states it makes them in.\<close>

lemma start_fresh:
  "WorkerThread_start body (WorkerThread_new fe) g =
     Returns (\<lparr>mThread = jthread_new, mFinishEarly = fe\<rparr>, g) [Spawn]"
  by (simp add: WorkerThread_new_def start_first jthread_default_def)

lemma addCallback_fresh:
  "WorkerThread_addCallback StartExtra \<lparr>mThread = jthread_new, mFinishEarly = True\<rparr> =
     (\<lparr>mThread = \<lparr>ssource = Some \<lparr>requested = False, callbacks = [(0, StartExtra)], issued = 1\<rparr>,
                   thr = Some Running\<rparr>, mFinishEarly = True\<rparr>, Some 0, [])"
  by (simp add: WorkerThread_addCallback_def stop_callback_new_def get_stop_token_def
        jthread_new_def new_stop_state_def register_callback_def)

lemma stop_primary:
  "WorkerThread_stop body False (primary n k False t) g =
     Returns (primary n k True t, g)
       (Stop # (if int k = SPECIAL_THREAD n then [Fire 0 StartExtra] else []))"
  by (simp add: WorkerThread_stop_def primary_def stop_possible_def get_stop_token_def
        jthread_request_stop_def request_stop_def)

lemma stop_overflow:
  "WorkerThread_stop body False (overflow False t) g = Returns (overflow True t, g) [Stop]"
  by (simp add: WorkerThread_stop_def overflow_def stop_possible_def get_stop_token_def
        jthread_request_stop_def request_stop_def)

lemma start_extra_fresh:
  "extraThread s = WorkerThread_new False \<Longrightarrow>
   start_extra s = Some (s\<lparr>extraThread := overflow False (Some Running)\<rparr>)"
  by (simp add: start_extra_def start_fresh overflow_def jthread_new_def new_stop_state_def)


lemma items_start: "items n (n * 10) = []"
  by (simp add: items_def)

lemma items_push: "0 < i \<Longrightarrow> i \<le> n * 10 \<Longrightarrow> items n (i - 1) = items n i @ [i]"
proof -
  assume a: "0 < i" "i \<le> n * 10"
  then have "nat (n * 10 - (i - 1)) = Suc (nat (n * 10 - i))" by simp
  then show ?thesis using a by (simp add: items_def)
qed

lemma main_creating:
  assumes "pc s = Creating i" and "int i < n"
  shows "main_step n s =
     Some (s\<lparr>threads := threads s @ [primary n i False Running], pc := Creating (Suc i)\<rparr>)"
proof (cases "int i = SPECIAL_THREAD n")
  case True
  then show ?thesis using assms
    by (simp add: main_step_def start_fresh addCallback_fresh goto_def primary_def)
next
  case False
  then show ?thesis using assms
    by (simp add: main_step_def start_fresh goto_def primary_def jthread_new_def
          new_stop_state_def)
qed

lemma main_created:
  assumes "pc s = Creating i" and "\<not> int i < n"
  shows "main_step n s = Some (s\<lparr>pc := Pushing (n * 10)\<rparr>)"
  using assms by (simp add: main_step_def)

lemma main_pushing:
  assumes "pc s = Pushing i" and "0 < i"
  shows "main_step n s =
     Some (s\<lparr>taskQueue := taskQueue s @ [i], pushed := pushed s @ [i], pc := Pushing (i - 1)\<rparr>)"
  using assms by (simp add: main_step_def)

lemma main_pushed:
  assumes "pc s = Pushing i" and "\<not> 0 < i" and "n \<noteq> 0"
  shows "main_step n s = Some (s\<lparr>pc := Killing 0\<rparr>)"
  using assms by (simp add: main_step_def)

lemma main_killing:
  assumes "pc s = Killing j" and "j < length (threads s)"
    and "threads s ! j = primary n j False t"
    and "extraThread s = WorkerThread_new False \<or> int j \<noteq> SPECIAL_THREAD n"
  shows "main_step n s =
     Some (s\<lparr>threads := (threads s)[j := primary n j True t],
             extraThread := (if int j = SPECIAL_THREAD n then overflow False (Some Running)
                             else extraThread s),
             pc := Killing (Suc j)\<rparr>)"
proof (cases "int j = SPECIAL_THREAD n")
  case True
  then have e: "extraThread s = WorkerThread_new False" using assms(4) by simp
  have m: "mFinishEarly (primary n j False t) = True" by (simp add: primary_def)
  show ?thesis using assms(1,2,3) True
    by (simp add: main_step_def m stop_primary start_extra_fresh e goto_def)
next
  case False
  have m: "mFinishEarly (primary n j False t) = True" by (simp add: primary_def)
  show ?thesis using assms(1,2,3) False
    by (simp add: main_step_def m stop_primary goto_def)
qed

lemma main_killed:
  assumes "pc s = Killing j" and "\<not> j < length (threads s)"
    and "extraThread s = overflow False t"
  shows "main_step n s = Some (s\<lparr>extraThread := overflow True t, pc := Joining\<rparr>)"
proof -
  have m: "mFinishEarly (overflow False t) = False"
    and p: "stop_possible (get_stop_token (mThread (overflow False t)))"
    by (simp_all add: overflow_def stop_possible_def get_stop_token_def)
  show ?thesis using assms
    by (simp add: main_step_def m p stop_overflow goto_def)
qed

lemma main_joining:
  assumes "pc s = Joining" and "extraThread s = overflow True (Some t)"
  shows "main_step n s =
     (case t of Running \<Rightarrow> None
      | Finished \<Rightarrow> Some (s\<lparr>extraThread := overflow True None, pc := Done\<rparr>))"
  using assms
  by (cases t) (simp_all add: main_step_def jthread_join_def overflow_def)


lemma special_lt: "1 \<le> n \<Longrightarrow> nat (SPECIAL_THREAD n) < nat n"
  by (simp add: special_pos)

lemma special_nat: "1 \<le> n \<Longrightarrow> (int j = SPECIAL_THREAD n) = (j = nat (SPECIAL_THREAD n))"
  by (auto simp: special_pos)

lemma inv_thread:
  "pool_inv n s \<Longrightarrow> k < length (threads s) \<Longrightarrow>
   \<exists>t. threads s ! k = primary n k (killed (pc s) k) t \<and>
       (\<not> killed (pc s) k \<longrightarrow> t = Running)"
  by (simp add: pool_inv_def)

lemma inv_main:
  assumes n: "1 \<le> n" and inv: "pool_inv n s" and st: "main_step n s = Some s'"
  shows "pool_inv n s'"
proof (cases "pc s")
  case (Creating i)
  show ?thesis
  proof (cases "int i < n")
    case True
    from main_creating [OF Creating True] st
    have s': "s' = s\<lparr>threads := threads s @ [primary n i False Running], pc := Creating (Suc i)\<rparr>"
      by simp
    show ?thesis using inv Creating True
      by (auto simp: pool_inv_def s' nth_append less_Suc_eq)
  next
    case False
    from main_created [OF Creating False] st have s': "s' = s\<lparr>pc := Pushing (n * 10)\<rparr>"
      by simp
    show ?thesis using inv Creating False n
      by (auto simp: pool_inv_def s' items_start)
  qed
next
  case (Pushing i)
  show ?thesis
  proof (cases "0 < i")
    case True
    from main_pushing [OF Pushing True] st
    have s': "s' = s\<lparr>taskQueue := taskQueue s @ [i], pushed := pushed s @ [i],
                      pc := Pushing (i - 1)\<rparr>" by simp
    show ?thesis using inv Pushing True
      by (auto simp: pool_inv_def s' items_push)
  next
    case False
    have "n \<noteq> 0" using n by simp
    from main_pushed [OF Pushing False this] st have s': "s' = s\<lparr>pc := Killing 0\<rparr>" by simp
    have "i = 0" using inv Pushing False by (simp add: pool_inv_def)
    then show ?thesis using inv Pushing
      by (auto simp: pool_inv_def s')
  qed
next
  case (Killing j)
  have len: "length (threads s) = nat n" and jn: "j \<le> nat n"
    and ex: "extraThread s =
             (if j \<le> nat (SPECIAL_THREAD n) then WorkerThread_new False
              else overflow False (Some Running))"
    using inv Killing by (simp_all add: pool_inv_def)
  show ?thesis
  proof (cases "j < length (threads s)")
    case True
    from inv_thread [OF inv True] obtain t where t: "threads s ! j = primary n j False t"
      using Killing by auto
    have c: "extraThread s = WorkerThread_new False \<or> int j \<noteq> SPECIAL_THREAD n"
      using ex n by (auto simp: special_nat)
    from main_killing [OF Killing True t c] st
    have s': "s' = s\<lparr>threads := (threads s)[j := primary n j True t],
             extraThread := (if int j = SPECIAL_THREAD n then overflow False (Some Running)
                             else extraThread s),
             pc := Killing (Suc j)\<rparr>" by simp
    have w: "\<forall>k < length (threads s').
         \<exists>t. threads s' ! k = primary n k (killed (pc s') k) t \<and>
             (\<not> killed (pc s') k \<longrightarrow> t = Running)"
      using inv Killing True t
      by (auto simp: pool_inv_def s' nth_list_update less_Suc_eq)
    have e: "extraThread s' =
             (if Suc j \<le> nat (SPECIAL_THREAD n) then WorkerThread_new False
              else overflow False (Some Running))"
      using ex n by (auto simp: s' special_nat)
    show ?thesis using inv Killing True w e
      by (simp add: pool_inv_def s')
  next
    case False
    then have j: "j = nat n" using len jn by simp
    have e: "extraThread s = overflow False (Some Running)"
      using ex j special_lt [OF n] by simp
    from main_killed [OF Killing False e] st
    have s': "s' = s\<lparr>extraThread := overflow True (Some Running), pc := Joining\<rparr>" by simp
    show ?thesis using inv Killing j
      by (auto simp: pool_inv_def s')
  qed
next
  case Joining
  then obtain t where t: "extraThread s = overflow True (Some t)"
    and q: "t = Finished \<longrightarrow> taskQueue s = []"
    using inv by (auto simp: pool_inv_def)
  from main_joining [OF Joining t, of n] st
  have s': "s' = s\<lparr>extraThread := overflow True None, pc := Done\<rparr>" and f: "t = Finished"
    by (cases t; simp)+
  show ?thesis using inv Joining q f
    by (auto simp: pool_inv_def s')
next
  case Done
  then show ?thesis using st by (simp add: main_step_def)
next
  case Crashed
  then show ?thesis using st by (simp add: main_step_def)
qed


lemma thread_turn_cases:
  assumes "thread_turn w s = Some (w', s')"
  shows "thr (mThread w) = Some Running \<and>
     ((w' = w\<lparr>mThread := (mThread w)\<lparr>thr := Some Finished\<rparr>\<rparr> \<and> s' = s \<and>
       token_stop_requested (get_stop_token (mThread w)) \<and>
       (mFinishEarly w \<or> taskQueue s = [])) \<or>
      (w' = w \<and>
       (\<exists>v q. taskQueue s = v # q \<and> s' = s\<lparr>taskQueue := q, dequeued := dequeued s @ [v]\<rparr>)))"
proof -
  have r: "thr (mThread w) = Some Running"
    using assms by (simp add: thread_turn_def split: if_splits)
  show ?thesis
  proof (cases "taskQueue s")
    case Nil
    then show ?thesis using assms r
      by (auto simp: thread_turn_def worker_turn_def cv_wait_def split: if_splits)
  next
    case (Cons v q)
    then show ?thesis using assms r
      by (auto simp: thread_turn_def worker_turn_def cv_wait_def split: if_splits)
  qed
qed

lemma primary_requested:
  "token_stop_requested (get_stop_token (mThread (primary n k stopped t))) = stopped"
  by (simp add: primary_def token_stop_requested_def get_stop_token_def stop_requested_def)

lemma primary_finish:
  "(primary n k stopped t)\<lparr>mThread := (mThread (primary n k stopped t))\<lparr>thr := Some t'\<rparr>\<rparr> =
   primary n k stopped t'"
  by (simp add: primary_def)

lemma overflow_requested:
  "token_stop_requested (get_stop_token (mThread (overflow stopped t))) = stopped"
  by (simp add: overflow_def token_stop_requested_def get_stop_token_def stop_requested_def)

lemma overflow_finish:
  "(overflow stopped t)\<lparr>mThread := (mThread (overflow stopped t))\<lparr>thr := t'\<rparr>\<rparr> =
   overflow stopped t'"
  by (simp add: overflow_def)

lemma overflow_thr [simp]: "thr (mThread (overflow stopped t)) = t"
  by (simp add: overflow_def)

lemma overflow_early [simp]: "mFinishEarly (overflow stopped t) = False"
  by (simp add: overflow_def)

lemma new_thr [simp]: "thr (mThread (WorkerThread_new fe)) = None"
  by (simp add: WorkerThread_new_def jthread_default_def)

text \<open>A dequeue keeps the invariant: it needs an item in the queue.\<close>

lemma inv_dequeue:
  assumes inv: "pool_inv n s" and q: "taskQueue s = v # q"
  shows "pool_inv n (s\<lparr>taskQueue := q, dequeued := dequeued s @ [v]\<rparr>)"
proof (cases "pc s")
  case (Creating i)
  then show ?thesis using inv q by (simp add: pool_inv_def)
next
  case (Pushing i)
  then show ?thesis using inv q by (simp add: pool_inv_def)
next
  case (Killing j)
  then show ?thesis using inv q by (simp add: pool_inv_def)
next
  case Joining
  then show ?thesis using inv q by (auto simp: pool_inv_def)
next
  case Done
  then show ?thesis using inv q by (simp add: pool_inv_def)
next
  case Crashed
  then show ?thesis using inv by (simp add: pool_inv_def)
qed

lemma inv_worker:
  assumes inv: "pool_inv n s" and st: "worker_step k s = Some s'"
  shows "pool_inv n s'"
proof -
  have k: "k < length (threads s)" using st by (simp add: worker_step_def split: if_splits)
  then obtain w s1 where tt: "thread_turn (threads s ! k) s = Some (w, s1)"
    and s': "s' = s1\<lparr>threads := (threads s1)[k := w]\<rparr>"
    using st by (auto simp: worker_step_def split: option.splits)
  from inv_thread [OF inv k] obtain t where
    t: "threads s ! k = primary n k (killed (pc s) k) t" by blast
  from thread_turn_cases [OF tt]
  have "(w = (threads s ! k)\<lparr>mThread := (mThread (threads s ! k))\<lparr>thr := Some Finished\<rparr>\<rparr> \<and>
         s1 = s \<and> token_stop_requested (get_stop_token (mThread (threads s ! k)))) \<or>
        (w = threads s ! k \<and>
         (\<exists>v q. taskQueue s = v # q \<and> s1 = s\<lparr>taskQueue := q, dequeued := dequeued s @ [v]\<rparr>))"
    by blast
  then show ?thesis
  proof
    assume a: "w = (threads s ! k)\<lparr>mThread := (mThread (threads s ! k))\<lparr>thr := Some Finished\<rparr>\<rparr> \<and>
         s1 = s \<and> token_stop_requested (get_stop_token (mThread (threads s ! k)))"
    then have kd: "killed (pc s) k" using t by (simp add: primary_requested)
    have w: "w = primary n k True Finished" using a t kd by (simp add: primary_finish)
    have s'': "s' = s\<lparr>threads := (threads s)[k := primary n k True Finished]\<rparr>"
      using a s' w by simp
    have th: "\<forall>k' < length (threads s').
         \<exists>t. threads s' ! k' = primary n k' (killed (pc s') k') t \<and>
             (\<not> killed (pc s') k' \<longrightarrow> t = Running)"
    proof (intro allI impI)
      fix k' assume "k' < length (threads s')"
      then have k': "k' < length (threads s)" by (simp add: s'')
      show "\<exists>t. threads s' ! k' = primary n k' (killed (pc s') k') t \<and>
             (\<not> killed (pc s') k' \<longrightarrow> t = Running)"
      proof (cases "k' = k")
        case True
        then show ?thesis using kd k by (auto simp: s'')
      next
        case False
        then show ?thesis using inv_thread [OF inv k'] by (simp add: s'')
      qed
    qed
    have m: "pc s' = pc s" and l: "length (threads s') = length (threads s)"
      by (simp_all add: s'')
    have "mset (dequeued s') + mset (taskQueue s') = mset (pushed s')"
      using inv by (simp add: pool_inv_def s'')
    moreover have "case pc s' of
         Creating i \<Rightarrow>
           length (threads s') = i \<and> int i \<le> n \<and> taskQueue s' = [] \<and> pushed s' = [] \<and>
           extraThread s' = WorkerThread_new False
       | Pushing i \<Rightarrow>
           length (threads s') = nat n \<and> 0 \<le> i \<and> i \<le> n * 10 \<and> pushed s' = items n i \<and>
           extraThread s' = WorkerThread_new False
       | Killing j \<Rightarrow>
           length (threads s') = nat n \<and> j \<le> nat n \<and> pushed s' = items n 0 \<and>
           extraThread s' =
             (if j \<le> nat (SPECIAL_THREAD n) then WorkerThread_new False
              else overflow False (Some Running))
       | Joining \<Rightarrow>
           length (threads s') = nat n \<and> pushed s' = items n 0 \<and>
           (\<exists>t. extraThread s' = overflow True (Some t) \<and> (t = Finished \<longrightarrow> taskQueue s' = []))
       | Done \<Rightarrow>
           length (threads s') = nat n \<and> pushed s' = items n 0 \<and>
           extraThread s' = overflow True None \<and> taskQueue s' = []
       | Crashed \<Rightarrow> False"
      using inv by (cases "pc s") (auto simp: pool_inv_def s'')
    ultimately show ?thesis using th by (simp add: pool_inv_def)
  next
    assume a: "w = threads s ! k \<and>
         (\<exists>v q. taskQueue s = v # q \<and> s1 = s\<lparr>taskQueue := q, dequeued := dequeued s @ [v]\<rparr>)"
    then obtain v q where q: "taskQueue s = v # q"
      and s1: "s1 = s\<lparr>taskQueue := q, dequeued := dequeued s @ [v]\<rparr>" by blast
    have "s' = s1" using a s' s1 by simp
    then show ?thesis using inv_dequeue [OF inv q] s1 by simp
  qed
qed

lemma inv_extra:
  assumes inv: "pool_inv n s" and st: "extra_step s = Some s'"
  shows "pool_inv n s'"
proof -
  obtain w s1 where tt: "thread_turn (extraThread s) s = Some (w, s1)"
    and s': "s' = s1\<lparr>extraThread := w\<rparr>"
    using st by (auto simp: extra_step_def split: option.splits)
  from thread_turn_cases [OF tt]
  have r: "thr (mThread (extraThread s)) = Some Running"
    and c: "(w = (extraThread s)\<lparr>mThread := (mThread (extraThread s))\<lparr>thr := Some Finished\<rparr>\<rparr> \<and>
         s1 = s \<and> token_stop_requested (get_stop_token (mThread (extraThread s))) \<and>
         (mFinishEarly (extraThread s) \<or> taskQueue s = [])) \<or>
        (w = extraThread s \<and>
         (\<exists>v q. taskQueue s = v # q \<and> s1 = s\<lparr>taskQueue := q, dequeued := dequeued s @ [v]\<rparr>))"
    by blast+
  from c show ?thesis
  proof
    assume a: "w = (extraThread s)\<lparr>mThread := (mThread (extraThread s))\<lparr>thr := Some Finished\<rparr>\<rparr> \<and>
         s1 = s \<and> token_stop_requested (get_stop_token (mThread (extraThread s))) \<and>
         (mFinishEarly (extraThread s) \<or> taskQueue s = [])"
    show ?thesis
    proof (cases "pc s")
      case (Creating i)
      then show ?thesis using inv r by (simp add: pool_inv_def)
    next
      case (Pushing i)
      then show ?thesis using inv r by (simp add: pool_inv_def)
    next
      case (Killing j)
      then show ?thesis using inv r a
        by (auto simp: pool_inv_def overflow_requested split: if_splits)
    next
      case Joining
      then obtain t where t: "extraThread s = overflow True (Some t)"
        using inv by (auto simp: pool_inv_def)
      have "s' = s\<lparr>extraThread := overflow True (Some Finished)\<rparr>" and "taskQueue s = []"
        using a s' t by (simp_all add: overflow_finish)
      then show ?thesis using inv Joining by (auto simp: pool_inv_def)
    next
      case Done
      then show ?thesis using inv r by (simp add: pool_inv_def)
    next
      case Crashed
      then show ?thesis using inv by (simp add: pool_inv_def)
    qed
  next
    assume a: "w = extraThread s \<and>
         (\<exists>v q. taskQueue s = v # q \<and> s1 = s\<lparr>taskQueue := q, dequeued := dequeued s @ [v]\<rparr>)"
    then obtain v q where q: "taskQueue s = v # q"
      and s1: "s1 = s\<lparr>taskQueue := q, dequeued := dequeued s @ [v]\<rparr>" by blast
    have "s' = s1" using a s' s1 by simp
    then show ?thesis using inv_dequeue [OF inv q] s1 by simp
  qed
qed

lemma inv_exec:
  "1 \<le> n \<Longrightarrow> pool_inv n s \<Longrightarrow> exec n sched s = Some s' \<Longrightarrow> pool_inv n s'"
proof (induction sched arbitrary: s)
  case Nil
  then show ?case by simp
next
  case (Cons a sched)
  from Cons.prems(3) obtain s1 where s1: "step n a s = Some s1"
    and rest: "exec n sched s1 = Some s'"
    by (auto split: option.splits)
  have "pool_inv n s1"
  proof (cases a)
    case MainThread
    then show ?thesis using s1 inv_main [OF Cons.prems(1,2)] by simp
  next
    case (Worker k)
    then show ?thesis using s1 inv_worker [OF Cons.prems(2)] by simp
  next
    case Extra
    then show ?thesis using s1 inv_extra [OF Cons.prems(2)] by simp
  qed
  from Cons.IH [OF Cons.prems(1) this rest] show ?case .
qed


lemma primary_early [simp]: "mFinishEarly (primary n k stopped t) = True"
  by (simp add: primary_def)

lemma running_le: "running w \<le> 1"
  by (simp add: running_def)

lemma running_primary [simp]: "running (primary n k stopped t) = (if t = Running then 1 else 0)"
  by (simp add: running_def primary_def)

lemma running_overflow [simp]: "running (overflow stopped t) = (if t = Some Running then 1 else 0)"
  by (simp add: running_def overflow_def)

lemma running_new [simp]: "running (WorkerThread_new fe) = 0"
  by (simp add: running_def)

lemma sum_running_update:
  "k < length ws \<Longrightarrow>
   sum_list (map running (ws[k := w])) + running (ws ! k) = sum_list (map running ws) + running w"
proof (induction ws arbitrary: k)
  case Nil
  then show ?case by simp
next
  case (Cons x ws)
  then show ?case by (cases k) auto
qed

lemma weight_main:
  assumes n: "1 \<le> n" and inv: "pool_inv n s" and st: "main_step n s = Some s'"
  shows "weight n s' < weight n s"
proof (cases "pc s")
  case (Creating i)
  show ?thesis
  proof (cases "int i < n")
    case True
    from main_creating [OF Creating True] st
    have s': "s' = s\<lparr>threads := threads s @ [primary n i False Running], pc := Creating (Suc i)\<rparr>"
      by simp
    have "main_left n (Creating (Suc i)) + 1 = main_left n (Creating i)" using True by simp
    then show ?thesis using Creating
      by (simp add: weight_def s' del: main_left.simps)
  next
    case False
    from main_created [OF Creating False] st have s': "s' = s\<lparr>pc := Pushing (n * 10)\<rparr>"
      by simp
    show ?thesis using Creating by (simp add: weight_def s')
  qed
next
  case (Pushing i)
  show ?thesis
  proof (cases "0 < i")
    case True
    from main_pushing [OF Pushing True] st
    have s': "s' = s\<lparr>taskQueue := taskQueue s @ [i], pushed := pushed s @ [i],
                      pc := Pushing (i - 1)\<rparr>" by simp
    have "main_left n (Pushing (i - 1)) + 1 = main_left n (Pushing i)" using True by simp
    then show ?thesis using Pushing
      by (simp add: weight_def s' del: main_left.simps)
  next
    case False
    have "n \<noteq> 0" using n by simp
    from main_pushed [OF Pushing False this] st have s': "s' = s\<lparr>pc := Killing 0\<rparr>" by simp
    show ?thesis using Pushing by (simp add: weight_def s')
  qed
next
  case (Killing j)
  have len: "length (threads s) = nat n" and jn: "j \<le> nat n"
    and ex: "extraThread s =
             (if j \<le> nat (SPECIAL_THREAD n) then WorkerThread_new False
              else overflow False (Some Running))"
    using inv Killing by (simp_all add: pool_inv_def)
  show ?thesis
  proof (cases "j < length (threads s)")
    case True
    from inv_thread [OF inv True] obtain t where t: "threads s ! j = primary n j False t"
      using Killing by auto
    have c: "extraThread s = WorkerThread_new False \<or> int j \<noteq> SPECIAL_THREAD n"
      using ex n by (auto simp: special_nat)
    from main_killing [OF Killing True t c] st
    have s': "s' = s\<lparr>threads := (threads s)[j := primary n j True t],
             extraThread := (if int j = SPECIAL_THREAD n then overflow False (Some Running)
                             else extraThread s),
             pc := Killing (Suc j)\<rparr>" by simp
    have u: "sum_list (map running ((threads s)[j := primary n j True t])) =
             sum_list (map running (threads s))"
      using sum_running_update [OF True, of "primary n j True t"] t by simp
    have r: "running (extraThread s') \<le> running (extraThread s) + 1"
      using running_le [of "extraThread s'"] by simp
    have "main_left n (Killing (Suc j)) + 1 = main_left n (Killing j)" using True len by simp
    then have "3 * main_left n (pc s') + 3 = 3 * main_left n (pc s)"
      using Killing by (simp add: s' del: main_left.simps)
    moreover have "taskQueue s' = taskQueue s"
      and "threads s' = (threads s)[j := primary n j True t]" by (simp_all add: s')
    ultimately show ?thesis using u r by (simp add: weight_def del: main_left.simps)
  next
    case False
    then have j: "j = nat n" using len jn by simp
    have e: "extraThread s = overflow False (Some Running)"
      using ex j special_lt [OF n] by simp
    from main_killed [OF Killing False e] st
    have s': "s' = s\<lparr>extraThread := overflow True (Some Running), pc := Joining\<rparr>" by simp
    show ?thesis using Killing e by (simp add: weight_def s')
  qed
next
  case Joining
  then obtain t where t: "extraThread s = overflow True (Some t)"
    using inv by (auto simp: pool_inv_def)
  from main_joining [OF Joining t, of n] st
  have s': "s' = s\<lparr>extraThread := overflow True None, pc := Done\<rparr>" and f: "t = Finished"
    by (cases t; simp)+
  show ?thesis using Joining t f by (simp add: weight_def s')
next
  case Done
  then show ?thesis using st by (simp add: main_step_def)
next
  case Crashed
  then show ?thesis using st by (simp add: main_step_def)
qed

lemma weight_turn:
  assumes "thread_turn w s = Some (w', s')"
  shows "pc s' = pc s \<and> threads s' = threads s \<and> extraThread s' = extraThread s \<and>
         length (taskQueue s') + running w' < length (taskQueue s) + running w"
  using thread_turn_cases [OF assms] by (auto simp: running_def)

lemma weight_worker:
  assumes st: "worker_step k s = Some s'"
  shows "weight n s' < weight n s"
proof -
  have k: "k < length (threads s)" using st by (simp add: worker_step_def split: if_splits)
  then obtain w s1 where tt: "thread_turn (threads s ! k) s = Some (w, s1)"
    and s': "s' = s1\<lparr>threads := (threads s1)[k := w]\<rparr>"
    using st by (auto simp: worker_step_def split: option.splits)
  from weight_turn [OF tt] sum_running_update [OF k, of w]
  show ?thesis by (simp add: weight_def s')
qed

lemma weight_extra:
  assumes st: "extra_step s = Some s'"
  shows "weight n s' < weight n s"
proof -
  obtain w s1 where tt: "thread_turn (extraThread s) s = Some (w, s1)"
    and s': "s' = s1\<lparr>extraThread := w\<rparr>"
    using st by (auto simp: extra_step_def split: option.splits)
  from weight_turn [OF tt] show ?thesis by (simp add: weight_def s')
qed

lemma weight_exec:
  "1 \<le> n \<Longrightarrow> pool_inv n s \<Longrightarrow> exec n sched s = Some s' \<Longrightarrow>
   weight n s' + length sched \<le> weight n s"
proof (induction sched arbitrary: s)
  case Nil
  then show ?case by simp
next
  case (Cons a sched)
  from Cons.prems(3) obtain s1 where s1: "step n a s = Some s1"
    and rest: "exec n sched s1 = Some s'"
    by (auto split: option.splits)
  have i1: "pool_inv n s1" using inv_exec [OF Cons.prems(1,2), of "[a]" s1] s1 by simp
  have "weight n s1 < weight n s"
  proof (cases a)
    case MainThread
    then show ?thesis using s1 weight_main [OF Cons.prems(1,2)] by simp
  next
    case (Worker k)
    then show ?thesis using s1 weight_worker by simp
  next
    case Extra
    then show ?thesis using s1 weight_extra by simp
  qed
  with Cons.IH [OF Cons.prems(1) i1 rest] show ?case by simp
qed

lemma weight_init: "1 \<le> n \<Longrightarrow> weight n init = 36 * nat n + 12"
proof -
  assume "1 \<le> n"
  then have "nat (n * 10) = 10 * nat n" by (simp add: nat_mult_distrib)
  then show ?thesis by (simp add: weight_def init_def)
qed

lemma can_move:
  assumes n: "1 \<le> n" and inv: "pool_inv n s" and nd: "pc s \<noteq> Done"
  shows "\<exists>a s'. step n a s = Some s'"
proof (cases "pc s")
  case (Creating i)
  then have "main_step n s \<noteq> None"
    using main_creating [OF Creating, of n] main_created [OF Creating, of n]
    by (cases "int i < n") simp_all
  then show ?thesis by (metis not_None_eq step.simps(1))
next
  case (Pushing i)
  have "n \<noteq> 0" using n by simp
  then have "main_step n s \<noteq> None"
    using main_pushing [OF Pushing, of n] main_pushed [OF Pushing, of n]
    by (cases "0 < i") simp_all
  then show ?thesis by (metis not_None_eq step.simps(1))
next
  case (Killing j)
  have len: "length (threads s) = nat n" and jn: "j \<le> nat n"
    and ex: "extraThread s =
             (if j \<le> nat (SPECIAL_THREAD n) then WorkerThread_new False
              else overflow False (Some Running))"
    using inv Killing by (simp_all add: pool_inv_def)
  have "main_step n s \<noteq> None"
  proof (cases "j < length (threads s)")
    case True
    from inv_thread [OF inv True] obtain t where t: "threads s ! j = primary n j False t"
      using Killing by auto
    have c: "extraThread s = WorkerThread_new False \<or> int j \<noteq> SPECIAL_THREAD n"
      using ex n by (auto simp: special_nat)
    from main_killing [OF Killing True t c] show ?thesis by simp
  next
    case False
    then have j: "j = nat n" using len jn by simp
    have e: "extraThread s = overflow False (Some Running)"
      using ex j special_lt [OF n] by simp
    from main_killed [OF Killing False e] show ?thesis by simp
  qed
  then show ?thesis by (metis not_None_eq step.simps(1))
next
  case Joining
  then obtain t where t: "extraThread s = overflow True (Some t)"
    using inv by (auto simp: pool_inv_def)
  show ?thesis
  proof (cases t)
    case Running
    have "extra_step s \<noteq> None"
      using t Running
      by (cases "taskQueue s")
         (simp_all add: extra_step_def thread_turn_def overflow_requested worker_turn_simps)
    then show ?thesis by (metis not_None_eq step.simps(3))
  next
    case Finished
    then have "main_step n s \<noteq> None" using main_joining [OF Joining t, of n] by simp
    then show ?thesis by (metis not_None_eq step.simps(1))
  qed
next
  case Done
  then show ?thesis using nd by simp
next
  case Crashed
  then show ?thesis using inv by (simp add: pool_inv_def)
qed

text \<open>
  C5. Let \<open>threadCount = n\<close> be at least 1 and take any schedule of \<^verbatim>\<open>main\<close>, the pool's
  workers and the extra worker that can be run from the start of \<^verbatim>\<open>main\<close>. \<^verbatim>\<open>main\<close> has not
  crashed, and the extra worker has been started exactly when \<^verbatim>\<open>main\<close> has called
  \<^verbatim>\<open>stop()\<close> on the designated worker \<open>SPECIAL_THREAD\<close>: its stop callback started it. When
  the blocking \<^verbatim>\<open>extraThread.stop(true)\<close> has returned, the queue is empty, the items
  dequeued are the items pushed, which are \<open>10 n, ..., 1\<close>, every worker of the pool has
  \<open>finishEarly = true\<close> and its stop requested, and the extra worker has
  \<open>finishEarly = false\<close>, its stop requested and its thread joined. Before that point some
  thread can always move, and no schedule is longer than \<open>36 n + 12\<close> steps: however the
  threads are scheduled, the blocking stop returns.
\<close>

theorem pool_shutdown_drains_queue:
  "1 \<le> n \<and> exec n sched init = Some s \<longrightarrow>
   pc s \<noteq> Crashed \<and>
   stop_possible (get_stop_token (mThread (extraThread s))) =
     killed (pc s) (nat (SPECIAL_THREAD n)) \<and>
   (pc s = Done \<longrightarrow>
      taskQueue s = [] \<and>
      mset (dequeued s) = mset (pushed s) \<and>
      pushed s = map (\<lambda>k. n * 10 - int k) [0..<nat (n * 10)] \<and>
      length (threads s) = nat n \<and>
      (\<forall>w \<in> set (threads s).
         mFinishEarly w \<and> token_stop_requested (get_stop_token (mThread w))) \<and>
      \<not> mFinishEarly (extraThread s) \<and>
      token_stop_requested (get_stop_token (mThread (extraThread s))) \<and>
      \<not> joinable (mThread (extraThread s))) \<and>
   (pc s \<noteq> Done \<longrightarrow> (\<exists>a s'. step n a s = Some s')) \<and>
   length sched \<le> 36 * nat n + 12"
proof (intro impI)
  assume h: "1 \<le> n \<and> exec n sched init = Some s"
  then have n: "1 \<le> n" and e: "exec n sched init = Some s" by simp_all
  have inv: "pool_inv n s" by (rule inv_exec [OF n inv_init [OF n] e])
  have c: "pc s \<noteq> Crashed" using inv by (auto simp: pool_inv_def)
  have x: "stop_possible (get_stop_token (mThread (extraThread s))) =
     killed (pc s) (nat (SPECIAL_THREAD n))"
    using inv special_lt [OF n]
    by (cases "pc s")
       (auto simp: pool_inv_def stop_possible_def get_stop_token_def WorkerThread_new_def
          jthread_default_def overflow_def)
  have d: "pc s = Done \<longrightarrow>
      taskQueue s = [] \<and>
      mset (dequeued s) = mset (pushed s) \<and>
      pushed s = map (\<lambda>k. n * 10 - int k) [0..<nat (n * 10)] \<and>
      length (threads s) = nat n \<and>
      (\<forall>w \<in> set (threads s).
         mFinishEarly w \<and> token_stop_requested (get_stop_token (mThread w))) \<and>
      \<not> mFinishEarly (extraThread s) \<and>
      token_stop_requested (get_stop_token (mThread (extraThread s))) \<and>
      \<not> joinable (mThread (extraThread s))"
  proof
    assume fin: "pc s = Done"
    have q: "taskQueue s = []" and p: "pushed s = items n 0"
      and l: "length (threads s) = nat n" and ex: "extraThread s = overflow True None"
      using inv fin by (simp_all add: pool_inv_def)
    have m: "mset (dequeued s) = mset (pushed s)" using inv q by (simp add: pool_inv_def)
    have w: "\<forall>w \<in> set (threads s).
         mFinishEarly w \<and> token_stop_requested (get_stop_token (mThread w))"
    proof
      fix w assume "w \<in> set (threads s)"
      then obtain k where k: "k < length (threads s)" and w: "w = threads s ! k"
        by (auto simp: in_set_conv_nth)
      from inv_thread [OF inv k] fin w obtain t where "w = primary n k True t" by auto
      then show "mFinishEarly w \<and> token_stop_requested (get_stop_token (mThread w))"
        by (simp add: primary_requested)
    qed
    show "taskQueue s = [] \<and>
      mset (dequeued s) = mset (pushed s) \<and>
      pushed s = map (\<lambda>k. n * 10 - int k) [0..<nat (n * 10)] \<and>
      length (threads s) = nat n \<and>
      (\<forall>w \<in> set (threads s).
         mFinishEarly w \<and> token_stop_requested (get_stop_token (mThread w))) \<and>
      \<not> mFinishEarly (extraThread s) \<and>
      token_stop_requested (get_stop_token (mThread (extraThread s))) \<and>
      \<not> joinable (mThread (extraThread s))"
      using q p l m w ex by (simp add: items_def overflow_requested joinable_def)
  qed
  have m: "pc s \<noteq> Done \<longrightarrow> (\<exists>a s'. step n a s = Some s')"
    using can_move [OF n inv] by blast
  have b: "length sched \<le> 36 * nat n + 12"
    using weight_exec [OF n inv_init [OF n] e] weight_init [OF n] by simp
  from c x d m b show "pc s \<noteq> Crashed \<and>
   stop_possible (get_stop_token (mThread (extraThread s))) =
     killed (pc s) (nat (SPECIAL_THREAD n)) \<and>
   (pc s = Done \<longrightarrow>
      taskQueue s = [] \<and>
      mset (dequeued s) = mset (pushed s) \<and>
      pushed s = map (\<lambda>k. n * 10 - int k) [0..<nat (n * 10)] \<and>
      length (threads s) = nat n \<and>
      (\<forall>w \<in> set (threads s).
         mFinishEarly w \<and> token_stop_requested (get_stop_token (mThread w))) \<and>
      \<not> mFinishEarly (extraThread s) \<and>
      token_stop_requested (get_stop_token (mThread (extraThread s))) \<and>
      \<not> joinable (mThread (extraThread s))) \<and>
   (pc s \<noteq> Done \<longrightarrow> (\<exists>a s'. step n a s = Some s')) \<and>
   length sched \<le> 36 * nat n + 12" by blast
qed

theorem pool_shutdown_drains_queue_witness:
  "exec 1 (replicate 15 MainThread @ replicate 11 Extra @ [MainThread]) init =
     Some \<lparr>taskQueue = [],
        threads =
          [\<lparr>mThread =
              \<lparr>ssource = Some \<lparr>requested = True, callbacks = [], issued = 1\<rparr>,
                 thr = Some Running\<rparr>,
              mFinishEarly = True\<rparr>],
        extraThread =
          \<lparr>mThread =
             \<lparr>ssource = Some \<lparr>requested = True, callbacks = [], issued = 0\<rparr>, thr = None\<rparr>,
             mFinishEarly = False\<rparr>,
        pc = Done, pushed = [10, 9, 8, 7, 6, 5, 4, 3, 2, 1],
        dequeued = [10, 9, 8, 7, 6, 5, 4, 3, 2, 1]\<rparr> \<and>
   length (replicate 15 MainThread @ replicate 11 Extra @ [MainThread]) \<le> 36 * nat 1 + 12"
proof -
  let ?sched = "replicate 15 MainThread @ replicate 11 Extra @ [MainThread]"
  let ?s = "\<lparr>taskQueue = [],
        threads =
          [\<lparr>mThread =
              \<lparr>ssource = Some \<lparr>requested = True, callbacks = [], issued = 1\<rparr>,
                 thr = Some Running\<rparr>,
              mFinishEarly = True\<rparr>],
        extraThread =
          \<lparr>mThread =
             \<lparr>ssource = Some \<lparr>requested = True, callbacks = [], issued = 0\<rparr>, thr = None\<rparr>,
             mFinishEarly = False\<rparr>,
        pc = Done, pushed = [10, 9, 8, 7, 6, 5, 4, 3, 2, 1],
        dequeued = [10, 9, 8, 7, 6, 5, 4, 3, 2, 1]\<rparr>"
  have r: "exec 1 ?sched init = Some ?s" by code_simp
  from pool_shutdown_drains_queue [where n = 1 and sched = ?sched and s = ?s] r
  show ?thesis by simp
qed


end
